theory Spec2Isabelle
  imports Complex_Main
begin

section \<open>Protocol: JSON values and commands (senses/protocol.py)\<close>

text \<open>
  The value \<open>json.loads\<close> returns: \<open>None\<close>, a bool, an int, a float, a str, a list
  or a dict. A dict is an association list looked up with \<open>map_of\<close>.
\<close>

datatype json =
    JNull
  | JBool bool
  | JInt int
  | JFloat real
  | JStr string
  | JArr "json list"
  | JObj "(string \<times> json) list"

text \<open>The exceptions the modelled code can raise.\<close>

datatype py_error = JSONDecodeError | KeyError | AttributeError | TypeError | HookError

record Command =
  command :: json
  options :: json

text \<open>
  The body of the \<open>try\<close> block of \<open>Command.from_json\<close>, on the outcome of
  \<open>json.loads(line)\<close> (\<open>None\<close>: the line is not JSON and \<open>JSONDecodeError\<close> is raised).
  \<open>data.get\<close> exists on a dict only: on every other value the attribute lookup raises
  \<open>AttributeError\<close>. \<open>data["command"]\<close> raises \<open>KeyError\<close> on a missing key.
\<close>

fun from_json_try :: "json option \<Rightarrow> py_error + Command option" where
  "from_json_try None = Inl JSONDecodeError"
| "from_json_try (Some (JObj d)) =
     (if map_of d ''type'' = Some (JStr ''command'') \<or> map_of d ''command'' \<noteq> None
      then (case map_of d ''command'' of
              None \<Rightarrow> Inl KeyError
            | Some c \<Rightarrow>
                Inr (Some \<lparr>command = c,
                  options = (case map_of d ''options'' of None \<Rightarrow> JObj [] | Some v \<Rightarrow> v)\<rparr>))
      else Inr None)"
| "from_json_try (Some _) = Inl AttributeError"

text \<open>
  \<open>Command.from_json\<close>: \<open>except (json.JSONDecodeError, KeyError): pass\<close> and then
  \<open>return None\<close>; any other exception leaves the function. The parser \<open>json.loads\<close>
  is the parameter \<open>loads\<close>.
\<close>

definition from_json :: "(string \<Rightarrow> json option) \<Rightarrow> string \<Rightarrow> py_error + Command option" where
  "from_json loads line =
     (case from_json_try (loads line) of
        Inl e \<Rightarrow> (if e = JSONDecodeError \<or> e = KeyError then Inr None else Inl e)
      | Inr r \<Rightarrow> Inr r)"

text \<open>
  \<open>str.strip()\<close> removes leading and trailing whitespace. The characters of a
  \<open>string\<close> are bytes, read as ASCII; the ASCII characters for which Python's
  \<open>str.isspace\<close> holds (and which \<open>\s\<close> matches) are 9 to 13, 28 to 31 and 32.
\<close>

definition isspace :: "char \<Rightarrow> bool" where
  "isspace c = (let n = of_char c :: nat in (9 \<le> n \<and> n \<le> 13) \<or> (28 \<le> n \<and> n \<le> 32))"

definition strip :: "string \<Rightarrow> string" where
  "strip s = rev (dropWhile isspace (rev (dropWhile isspace s)))"

text \<open>
  \<open>read_commands\<close>: the generator over the lines of stdin. The result is the list of
  commands it yields, in order, and the exception that ended it (\<open>None\<close> when stdin
  is exhausted): commands yielded before a raising line have already been handled by
  the caller's loop.
\<close>

fun read_commands :: "(string \<Rightarrow> json option) \<Rightarrow> string list \<Rightarrow> Command list \<times> py_error option" where
  "read_commands loads [] = ([], None)"
| "read_commands loads (l # ls) =
     (let line = strip l in
      if line = [] then read_commands loads ls
      else (case from_json loads line of
              Inl e \<Rightarrow> ([], Some e)
            | Inr None \<Rightarrow> read_commands loads ls
            | Inr (Some cmd) \<Rightarrow>
                (case read_commands loads ls of (cmds, e) \<Rightarrow> (cmd # cmds, e))))"

text \<open>
  What \<open>json.loads\<close> returns on the lines used in the examples of this theory
  (every other line is taken as not being JSON).
\<close>

definition sample_loads :: "string \<Rightarrow> json option" where
  "sample_loads l =
     (if l = ''[1]'' then Some (JArr [JInt 1])
      else if l = ''3'' then Some (JInt 3)
      else if l = ''null'' then Some JNull
      else if l = ''{}'' then Some (JObj [])
      else if l = ''{\"type\": \"command\"}'' then Some (JObj [(''type'', JStr ''command'')])
      else if l = ''{\"command\": \"start\"}'' then Some (JObj [(''command'', JStr ''start'')])
      else if l = ''{\"command\": \"stop\"}'' then Some (JObj [(''command'', JStr ''stop'')])
      else None)"

section \<open>Sense lifecycle (senses/base.py)\<close>

text \<open>
  \<open>BaseSense\<close> is abstract: \<open>_start\<close>, \<open>_stop\<close> and \<open>_configure\<close> belong to the
  subclass. A hook works on the subclass's own state \<open>'x\<close> and either returns the new
  state or raises (\<open>None\<close>), as \<open>VisionSense._start\<close> does when the camera does not
  open. The hooks do not assign \<open>running\<close> to a new value (the ones of the repository
  only repeat \<open>self.running = False\<close> inside \<open>_stop\<close>).
\<close>

record 'x hooks =
  start_hook :: "'x \<Rightarrow> 'x option"
  stop_hook :: "'x \<Rightarrow> 'x option"
  configure_hook :: "(string \<times> json) list \<Rightarrow> 'x \<Rightarrow> 'x option"

datatype hook_call = Start_call | Stop_call | Configure_call "(string \<times> json) list"

text \<open>
  The sense object: \<open>running\<close>, \<open>_config\<close>, the subclass's state, and the log of
  the hook invocations made so far (what the claims about \<open>_start\<close> and \<open>_stop\<close>
  observe).
\<close>

record 'x BaseSense =
  running :: bool
  config :: "string \<rightharpoonup> json"
  sub :: 'x
  calls :: "hook_call list"

definition call_start :: "'x hooks \<Rightarrow> 'x BaseSense \<Rightarrow> 'x BaseSense \<times> py_error option" where
  "call_start h s =
     (let s1 = s\<lparr>calls := calls s @ [Start_call]\<rparr> in
      case start_hook h (sub s1) of
        None \<Rightarrow> (s1, Some HookError)
      | Some x \<Rightarrow> (s1\<lparr>sub := x\<rparr>, None))"

definition call_stop :: "'x hooks \<Rightarrow> 'x BaseSense \<Rightarrow> 'x BaseSense \<times> py_error option" where
  "call_stop h s =
     (let s1 = s\<lparr>calls := calls s @ [Stop_call]\<rparr> in
      case stop_hook h (sub s1) of
        None \<Rightarrow> (s1, Some HookError)
      | Some x \<Rightarrow> (s1\<lparr>sub := x\<rparr>, None))"

text \<open>
  \<open>self.configure(**cmd.options)\<close>: the \<open>**\<close> needs a mapping (\<open>TypeError\<close>
  otherwise) and a key \<open>self\<close> collides with the bound argument; then
  \<open>_config.update(options)\<close> and the hook.
\<close>

definition configure :: "'x hooks \<Rightarrow> json \<Rightarrow> 'x BaseSense \<Rightarrow> 'x BaseSense \<times> py_error option" where
  "configure h opts s =
     (case opts of
        JObj kv \<Rightarrow>
          (if map_of kv ''self'' \<noteq> None then (s, Some TypeError)
           else
             (let s1 = s\<lparr>config := config s ++ map_of kv,
                         calls := calls s @ [Configure_call kv]\<rparr> in
              case configure_hook h kv (sub s1) of
                None \<Rightarrow> (s1, Some HookError)
              | Some x \<Rightarrow> (s1\<lparr>sub := x\<rparr>, None)))
      | _ \<Rightarrow> (s, Some TypeError))"

text \<open>\<open>BaseSense._handle_command\<close>; the last branch only logs the unknown command.\<close>

definition handle_command :: "'x hooks \<Rightarrow> Command \<Rightarrow> 'x BaseSense \<Rightarrow> 'x BaseSense \<times> py_error option" where
  "handle_command h cmd s =
     (if command cmd = JStr ''start'' then
        (if \<not> running s then call_start h (s\<lparr>running := True\<rparr>) else (s, None))
      else if command cmd = JStr ''stop'' then
        (if running s then call_stop h (s\<lparr>running := False\<rparr>) else (s, None))
      else if command cmd = JStr ''configure'' then configure h (options cmd) s
      else (s, None))"

text \<open>
  The command loop of \<open>BaseSense.run\<close>: each command is handled in turn, an exception
  ends the loop, and so does a \<open>stop\<close> after which the sense is not running.
\<close>

fun run_commands :: "'x hooks \<Rightarrow> Command list \<Rightarrow> 'x BaseSense \<Rightarrow> 'x BaseSense \<times> py_error option" where
  "run_commands h [] s = (s, None)"
| "run_commands h (cmd # cmds) s =
     (case handle_command h cmd s of
        (s1, Some e) \<Rightarrow> (s1, Some e)
      | (s1, None) \<Rightarrow>
          (if \<not> running s1 \<and> command cmd = JStr ''stop'' then (s1, None)
           else run_commands h cmds s1))"

text \<open>
  Reading a log of hook invocations against the value of \<open>running\<close>: \<open>_start\<close> may
  only appear while \<open>running\<close> was \<open>False\<close> and makes it \<open>True\<close>, \<open>_stop\<close> only
  while it was \<open>True\<close> and makes it \<open>False\<close>. \<open>edges r cs\<close> is the value of
  \<open>running\<close> after the log when every invocation sits on such a transition, and
  \<open>None\<close> otherwise.
\<close>

fun edges :: "bool \<Rightarrow> hook_call list \<Rightarrow> bool option" where
  "edges r [] = Some r"
| "edges r (Start_call # cs) = (if r then None else edges True cs)"
| "edges r (Stop_call # cs) = (if r then edges False cs else None)"
| "edges r (Configure_call kv # cs) = edges r cs"

definition no_hooks :: "unit hooks" where
  "no_hooks = \<lparr>start_hook = Some, stop_hook = Some, configure_hook = (\<lambda>kv. Some)\<rparr>"

definition new_sense :: "unit BaseSense" where
  "new_sense = \<lparr>running = False, config = Map.empty, sub = (), calls = []\<rparr>"

section \<open>Voice activity detection (perception/audio/vad.py)\<close>

definition SAMPLE_RATE :: int where
  "SAMPLE_RATE = 16000"

definition CHUNK_MS :: int where
  "CHUNK_MS = 32"

definition CHUNK_SAMPLES :: nat where
  "CHUNK_SAMPLES = nat (SAMPLE_RATE * CHUNK_MS div 1000)"

text \<open>
  An audio chunk is the list of its samples (\<open>'a\<close> is the sample type). A segment
  carries the concatenated audio, its two time stamps and its duration.
\<close>

record 'a SpeechSegment =
  audio :: "'a list"
  start_time :: real
  end_time :: real
  duration_ms :: int

text \<open>
  The attributes \<open>SileroVAD.__init__\<close> fixes. \<open>on_speech_segment\<close> says whether a
  callback is registered; the callbacks of the repository catch every exception of
  their own, so a registered callback returns.
\<close>

record vad_config =
  threshold :: real
  min_speech_samples :: int
  min_silence_samples :: int
  speech_pad_samples :: int
  on_speech_segment :: bool

text \<open>
  \<open>int(SAMPLE_RATE * ms / 1000)\<close>: \<open>SAMPLE_RATE * ms\<close> is a multiple of 1000, so the
  quotient is the integer \<open>16 * ms\<close> and the conversion to \<open>int\<close> cuts nothing off.
\<close>

definition ms_to_samples :: "int \<Rightarrow> int" where
  "ms_to_samples ms = SAMPLE_RATE * ms div 1000"

definition SileroVAD :: "real \<Rightarrow> int \<Rightarrow> int \<Rightarrow> int \<Rightarrow> bool \<Rightarrow> vad_config" where
  "SileroVAD thr min_speech_ms min_silence_ms speech_pad_ms cb =
     \<lparr>threshold = thr,
      min_speech_samples = ms_to_samples min_speech_ms,
      min_silence_samples = ms_to_samples min_silence_ms,
      speech_pad_samples = ms_to_samples speech_pad_ms,
      on_speech_segment = cb\<rparr>"

record 'a vad_state =
  speech_buffer :: "'a list list"
  silence_samples :: int
  speech_samples :: int
  in_speech :: bool
  speech_start_time :: "real option"

definition vad_init :: "'a vad_state" where
  "vad_init = \<lparr>speech_buffer = [], silence_samples = 0, speech_samples = 0,
                in_speech = False, speech_start_time = None\<rparr>"

definition reset :: "'a vad_state \<Rightarrow> 'a vad_state" where
  "reset s = s\<lparr>speech_buffer := [], speech_samples := 0, silence_samples := 0,
               in_speech := False, speech_start_time := None\<rparr>"

text \<open>
  \<open>int(len(audio) / SAMPLE_RATE * 1000)\<close>. The source computes the quotient and the
  product in double precision; the model takes the exact value, rounded down.
\<close>

definition segment_duration_ms :: "nat \<Rightarrow> int" where
  "segment_duration_ms n = (int n * 1000) div SAMPLE_RATE"

text \<open>
  \<open>_emit_segment\<close> at time \<open>now\<close> (the value of \<open>time.time()\<close>): the segment handed to
  the callback, if any, and the reset state. \<open>self._speech_start_time or time.time()\<close>
  takes the current time when the start time is \<open>None\<close> or zero.
\<close>

definition emit_segment :: "vad_config \<Rightarrow> real \<Rightarrow> 'a vad_state \<Rightarrow> 'a vad_state \<times> 'a SpeechSegment list" where
  "emit_segment cfg now s =
     (let out =
        (if speech_samples s \<ge> min_speech_samples cfg \<and> speech_buffer s \<noteq> [] then
           (let a = concat (speech_buffer s);
                segment = \<lparr>audio = a,
                  start_time = (case speech_start_time s of
                                  None \<Rightarrow> now
                                | Some t \<Rightarrow> if t = 0 then now else t),
                  end_time = now,
                  duration_ms = segment_duration_ms (length a)\<rparr>
            in if on_speech_segment cfg then [segment] else [])
         else [])
      in (reset s, out))"

text \<open>
  \<open>process_chunk\<close>. \<open>model\<close> is the Silero network: the speech probability of the
  first \<open>CHUNK_SAMPLES\<close> samples. The result is the new state, the returned
  probability (\<open>None\<close> for a chunk that is too small) and the segments handed to the
  callback during the call.
\<close>

definition process_chunk ::
  "vad_config \<Rightarrow> ('a list \<Rightarrow> real) \<Rightarrow> real \<Rightarrow> 'a list \<Rightarrow> 'a vad_state
     \<Rightarrow> 'a vad_state \<times> real option \<times> 'a SpeechSegment list" where
  "process_chunk cfg model now audio_chunk s =
     (if length audio_chunk < CHUNK_SAMPLES then (s, None, [])
      else
        (let speech_prob = model (take CHUNK_SAMPLES audio_chunk);
             is_speech = (speech_prob \<ge> threshold cfg)
         in if is_speech then
              (let s1 = (if \<not> in_speech s
                         then s\<lparr>in_speech := True, speech_start_time := Some now,
                                speech_samples := 0, silence_samples := 0\<rparr>
                         else s);
                   s2 = s1\<lparr>speech_buffer := speech_buffer s1 @ [audio_chunk],
                            speech_samples := speech_samples s1 + int (length audio_chunk),
                            silence_samples := 0\<rparr>
               in (s2, Some speech_prob, []))
            else if in_speech s then
              (let s1 = s\<lparr>speech_buffer := speech_buffer s @ [audio_chunk],
                           silence_samples := silence_samples s + int (length audio_chunk)\<rparr>
               in if silence_samples s1 \<ge> min_silence_samples cfg
                  then (case emit_segment cfg now s1 of (s2, out) \<Rightarrow> (s2, Some speech_prob, out))
                  else (s1, Some speech_prob, []))
            else (s, Some speech_prob, [])))"

text \<open>
  Feeding a sequence of chunks, each with the time of its call, as the processing loop
  does: the final state and every segment handed to the callback, in order.
\<close>

fun process_chunks ::
  "vad_config \<Rightarrow> ('a list \<Rightarrow> real) \<Rightarrow> (real \<times> 'a list) list \<Rightarrow> 'a vad_state
     \<Rightarrow> 'a vad_state \<times> 'a SpeechSegment list" where
  "process_chunks cfg model [] s = (s, [])"
| "process_chunks cfg model ((now, c) # cs) s =
     (case process_chunk cfg model now c s of
        (s1, p, out) \<Rightarrow>
          (case process_chunks cfg model cs s1 of (s2, outs) \<Rightarrow> (s2, out @ outs)))"

subsection \<open>Describing a chunk sequence\<close>

text \<open>How \<open>process_chunk\<close> classifies a chunk, and sample counts over timed chunks.\<close>

definition is_speech_chunk :: "vad_config \<Rightarrow> ('a list \<Rightarrow> real) \<Rightarrow> 'a list \<Rightarrow> bool" where
  "is_speech_chunk cfg model c = (model (take CHUNK_SAMPLES c) \<ge> threshold cfg)"

definition total_samples :: "(real \<times> 'a list) list \<Rightarrow> int" where
  "total_samples xs = (\<Sum>x\<leftarrow>xs. int (length (snd x)))"

definition speech_total :: "vad_config \<Rightarrow> ('a list \<Rightarrow> real) \<Rightarrow> (real \<times> 'a list) list \<Rightarrow> int" where
  "speech_total cfg model xs = total_samples (filter (\<lambda>x. is_speech_chunk cfg model (snd x)) xs)"

text \<open>The samples of the silence run that ends the sequence.\<close>

definition trailing_silence :: "vad_config \<Rightarrow> ('a list \<Rightarrow> real) \<Rightarrow> (real \<times> 'a list) list \<Rightarrow> int" where
  "trailing_silence cfg model xs =
     total_samples (takeWhile (\<lambda>x. \<not> is_speech_chunk cfg model (snd x)) (rev xs))"

text \<open>
  The specification's condition, in its words: a contiguous run of speech chunks of at
  least \<open>min_speech_samples\<close> directly followed by a run of silence chunks of at least
  \<open>min_silence_samples\<close>. The runs are \<open>xs[i:j]\<close> and \<open>xs[j:k]\<close>, both non-empty.
\<close>

definition slice :: "nat \<Rightarrow> nat \<Rightarrow> 'b list \<Rightarrow> 'b list" where
  "slice i j xs = take (j - i) (drop i xs)"

definition has_contiguous_run :: "vad_config \<Rightarrow> ('a list \<Rightarrow> real) \<Rightarrow> (real \<times> 'a list) list \<Rightarrow> bool" where
  "has_contiguous_run cfg model xs =
     (\<exists>i \<in> {0..<length xs}. \<exists>j \<in> {i<..length xs}. \<exists>k \<in> {j<..length xs}.
        list_all (\<lambda>x. is_speech_chunk cfg model (snd x)) (slice i j xs) \<and>
        list_all (\<lambda>x. \<not> is_speech_chunk cfg model (snd x)) (slice j k xs) \<and>
        total_samples (slice i j xs) \<ge> min_speech_samples cfg \<and>
        total_samples (slice j k xs) \<ge> min_silence_samples cfg)"

text \<open>
  What the code accumulates instead: a session \<open>w\<close>, a stretch of consecutive chunks
  that starts with a speech chunk and ends with a silence chunk, whose speech chunks
  together (contiguous or not) reach \<open>min_speech_samples\<close>, whose closing silence run
  reaches \<open>min_silence_samples\<close>, and in which no earlier silence run does.
\<close>

definition session :: "vad_config \<Rightarrow> ('a list \<Rightarrow> real) \<Rightarrow> (real \<times> 'a list) list \<Rightarrow> bool" where
  "session cfg model w =
     (w \<noteq> [] \<and> is_speech_chunk cfg model (snd (hd w)) \<and>
      \<not> is_speech_chunk cfg model (snd (last w)) \<and>
      speech_total cfg model w \<ge> min_speech_samples cfg \<and>
      trailing_silence cfg model w \<ge> min_silence_samples cfg \<and>
      (\<forall>u v. w = u @ v \<and> u \<noteq> [] \<and> v \<noteq> [] \<and> \<not> is_speech_chunk cfg model (snd (last u))
         \<longrightarrow> trailing_silence cfg model u < min_silence_samples cfg))"

definition has_session :: "vad_config \<Rightarrow> ('a list \<Rightarrow> real) \<Rightarrow> (real \<times> 'a list) list \<Rightarrow> bool" where
  "has_session cfg model xs = (\<exists>pre w post. xs = pre @ w @ post \<and> session cfg model w)"

text \<open>
  Example material: a chunk of \<open>CHUNK_SAMPLES\<close> samples all equal to \<open>v\<close>, a scorer
  that calls a chunk speech when its first sample is positive, and \<open>n\<close> equal chunks
  fed at times \<open>t, t + 1, ...\<close>.
\<close>

definition const_chunk :: "int \<Rightarrow> int list" where
  "const_chunk v = replicate CHUNK_SAMPLES v"

definition first_sample_model :: "int list \<Rightarrow> real" where
  "first_sample_model c = (case c of [] \<Rightarrow> 0 | v # _ \<Rightarrow> if v > 0 then 1 else 0)"

fun feed :: "nat \<Rightarrow> real \<Rightarrow> int \<Rightarrow> (real \<times> int list) list" where
  "feed 0 t v = []"
| "feed (Suc n) t v = (t, const_chunk v) # feed n (t + 1) v"

section \<open>Transcription coordinator (perception/audio/fast_whisper_service.py)\<close>

subsection \<open>Strings and the regular expressions of the hallucination filter\<close>

text \<open>
  Texts are ASCII strings. \<open>\w\<close> matches letters, digits and the underscore;
  \<open>str.lower\<close> maps \<open>A..Z\<close> to \<open>a..z\<close>.
\<close>

definition isword :: "char \<Rightarrow> bool" where
  "isword c =
     (let n = of_char c :: nat in
      (97 \<le> n \<and> n \<le> 122) \<or> (65 \<le> n \<and> n \<le> 90) \<or> (48 \<le> n \<and> n \<le> 57) \<or> n = 95)"

definition lower_char :: "char \<Rightarrow> char" where
  "lower_char c =
     (let n = of_char c :: nat in if 65 \<le> n \<and> n \<le> 90 then char_of (n + 32) else c)"

definition lower :: "string \<Rightarrow> string" where
  "lower s = map lower_char s"

text \<open>\<open>startswith p s\<close>: \<open>s.startswith(p)\<close>; \<open>contains p s\<close>: \<open>p in s\<close>.\<close>

fun startswith :: "'b list \<Rightarrow> 'b list \<Rightarrow> bool" where
  "startswith [] s = True"
| "startswith (p # ps) [] = False"
| "startswith (p # ps) (c # cs) = (p = c \<and> startswith ps cs)"

fun contains :: "'b list \<Rightarrow> 'b list \<Rightarrow> bool" where
  "contains p [] = (p = [])"
| "contains p (c # cs) = (startswith p (c # cs) \<or> contains p cs)"

text \<open>\<open>" ".join(parts)\<close>\<close>

fun join_space :: "string list \<Rightarrow> string" where
  "join_space [] = []"
| "join_space [p] = p"
| "join_space (p # q # ps) = p @ '' '' @ join_space (q # ps)"

text \<open>\<open>re.match(r"^[\s\.\,\!\?\-]+$", text)\<close>: one or more characters, all of the class.\<close>

definition only_punctuation :: "string \<Rightarrow> bool" where
  "only_punctuation t = (t \<noteq> [] \<and> list_all (\<lambda>c. isspace c \<or> c \<in> set ''.,!?-'') t)"

text \<open>
  One repetition \<open>\s+\1\<close> at the front of \<open>r\<close>, where the group matched \<open>w\<close>: the
  rest of the text behind it. \<open>w\<close> starts with a word character, which is no
  whitespace, so \<open>\s+\<close> has to take the whole run of whitespace.
\<close>

definition strip_rep :: "string \<Rightarrow> string \<Rightarrow> string option" where
  "strip_rep w r =
     (let r1 = dropWhile isspace r in
      if length r1 < length r \<and> startswith w r1 then Some (drop (length w) r1) else None)"

text \<open>
  The rests of the text after one, two, three, ... repetitions of \<open>\s+\1\<close> (the
  points at which a repetition operator may stop). The first argument bounds the
  number of repetitions; the length of the text is enough.
\<close>

fun after_reps :: "nat \<Rightarrow> string \<Rightarrow> string \<Rightarrow> string list" where
  "after_reps 0 w r = []"
| "after_reps (Suc n) w r =
     (case strip_rep w r of None \<Rightarrow> [] | Some r1 \<Rightarrow> r1 # after_reps n w r1)"

text \<open>
  \<open>\b(\w+)(?:\s+\1){2,}\b\<close> matched at one position: \<open>prev\<close> is the character
  before it and \<open>rest\<close> the text from it on. The group may take any non-empty prefix of
  word characters; at least two repetitions follow; the match ends where no word
  character comes next.
\<close>

definition repeated_word_at :: "char option \<Rightarrow> string \<Rightarrow> bool" where
  "repeated_word_at prev rest =
     ((case prev of None \<Rightarrow> True | Some p \<Rightarrow> \<not> isword p) \<and>
      list_ex (\<lambda>l.
          list_all isword (take l rest) \<and>
          list_ex (\<lambda>r1. r1 = [] \<or> \<not> isword (hd r1))
            (drop 1 (after_reps (length rest) (take l rest) (drop l rest))))
        [1..<Suc (length rest)])"

text \<open>\<open>re.search(r"\b(\w+)(?:\s+\1){2,}\b", text)\<close>: some position matches.\<close>

fun repeated_word_from :: "char option \<Rightarrow> string \<Rightarrow> bool" where
  "repeated_word_from prev [] = False"
| "repeated_word_from prev (c # cs) =
     (repeated_word_at prev (c # cs) \<or> repeated_word_from (Some c) cs)"

definition repeated_word :: "string \<Rightarrow> bool" where
  "repeated_word t = repeated_word_from None t"

text \<open>\<open>re.match(r"^(\w)(?:\s+\1)+\s*$", text)\<close>\<close>

definition repeated_char :: "string \<Rightarrow> bool" where
  "repeated_char t =
     (case t of
        [] \<Rightarrow> False
      | c # r \<Rightarrow> isword c \<and> list_ex (list_all isspace) (after_reps (length r) [c] r))"

text \<open>
  \<open>re.search(r"(.{1,3})\1{3,}", text)\<close>: a group of one to three characters other than
  the newline, followed by three more copies of itself, somewhere in the text.
\<close>

definition repeated_group_at :: "string \<Rightarrow> bool" where
  "repeated_group_at rest =
     list_ex (\<lambda>l. l \<le> length rest \<and>
                (let g = take l rest in
                 CHR 0x0A \<notin> set g \<and> startswith (g @ g @ g) (drop l rest)))
       [1, 2, 3]"

fun repeated_group :: "string \<Rightarrow> bool" where
  "repeated_group [] = False"
| "repeated_group (c # cs) = (repeated_group_at (c # cs) \<or> repeated_group cs)"

subsection \<open>The hallucination filter and the interrupt keywords\<close>

definition HALLUCINATION_PATTERNS :: "string list" where
  "HALLUCINATION_PATTERNS =
     [''thank you for watching'', ''thanks for watching'', ''please subscribe'',
      ''like and subscribe'', ''see you next time'', ''bye bye'', ''goodbye'',
      ''[music]'', ''[applause]'', ''you'', ''the'']"

definition is_hallucination :: "string \<Rightarrow> bool" where
  "is_hallucination text0 =
     (let t = lower (strip text0) in
      if length t < 3 then True
      else if only_punctuation t then True
      else if list_ex (\<lambda>pattern. t = pattern \<or> (length pattern > 5 \<and> contains pattern t))
                HALLUCINATION_PATTERNS then True
      else if repeated_word t then True
      else if repeated_char t then True
      else if repeated_group t then True
      else False)"

definition INTERRUPT_KEYWORDS :: "string list" where
  "INTERRUPT_KEYWORDS = [''kira'', ''stop'', ''wait'', ''quiet'']"

definition is_interrupt :: "string \<Rightarrow> bool" where
  "is_interrupt t = list_ex (\<lambda>kw. contains kw (lower t)) INTERRUPT_KEYWORDS"

subsection \<open>The transcriber\<close>

record TranscriptionResult =
  tr_text :: string
  tr_language :: string
  tr_confidence :: real
  tr_duration_ms :: int

text \<open>A callback invocation: \<open>on_interrupt(text)\<close> or \<open>on_transcription(result)\<close>.\<close>

datatype callback_event = Interrupt_fired string | Transcription_fired TranscriptionResult

text \<open>
  The transcriber object: whether each callback is set, the VAD with its
  configuration, and the mute flag.
\<close>

record 'a FastWhisperTranscriber =
  on_transcription :: bool
  on_interrupt :: bool
  vad_cfg :: vad_config
  vad :: "'a vad_state"
  muted :: bool

definition new_transcriber :: "real \<Rightarrow> bool \<Rightarrow> bool \<Rightarrow> 'a FastWhisperTranscriber" where
  "new_transcriber vad_threshold on_t on_i =
     \<lparr>on_transcription = on_t, on_interrupt = on_i,
      vad_cfg = SileroVAD vad_threshold 250 700 100 True,
      vad = vad_init, muted = False\<rparr>"

text \<open>
  \<open>_handle_speech\<close>, as the callback invocations it makes, in order. \<open>transcribed\<close>
  is what \<open>model.transcribe\<close> gives for the segment: \<open>None\<close> when it raises (the
  outer \<open>except\<close> then logs and nothing is called), otherwise the texts of the
  segments and \<open>info.language\<close>. An exception of a callback is caught right at the
  call, so the second callback is reached either way.
\<close>

definition handle_speech ::
  "'a FastWhisperTranscriber \<Rightarrow> (string list \<times> string option) option \<Rightarrow> int \<Rightarrow> callback_event list" where
  "handle_speech tr transcribed inference_ms =
     (let is_muted = muted tr in
      case transcribed of
        None \<Rightarrow> []
      | Some (text_parts, lang) \<Rightarrow>
          (let t = strip (join_space text_parts) in
           if t = [] then []
           else if is_hallucination t then []
           else
             (let fired = (if is_interrupt t \<and> on_interrupt tr then [Interrupt_fired t] else [])
              in if is_muted then fired
                 else fired @
                   (if on_transcription tr
                    then [Transcription_fired
                            \<lparr>tr_text = t,
                             tr_language = (case lang of
                                              None \<Rightarrow> ''en''
                                            | Some l \<Rightarrow> if l = [] then ''en'' else l),
                             tr_confidence = 1,
                             tr_duration_ms = inference_ms\<rparr>]
                    else []))))"

definition mute :: "'a FastWhisperTranscriber \<Rightarrow> 'a FastWhisperTranscriber" where
  "mute tr = (let tr1 = tr\<lparr>muted := True\<rparr> in tr1\<lparr>vad := reset (vad tr1)\<rparr>)"

definition unmute :: "'a FastWhisperTranscriber \<Rightarrow> 'a FastWhisperTranscriber" where
  "unmute tr = (let tr1 = tr\<lparr>vad := reset (vad tr)\<rparr> in tr1\<lparr>muted := False\<rparr>)"

text \<open>
  One turn of \<open>_process_loop\<close> with a chunk from the queue: skipped while muted,
  otherwise handed to the VAD. The segments are those passed on to \<open>_handle_speech\<close>.
\<close>

definition process_loop_step ::
  "('a list \<Rightarrow> real) \<Rightarrow> real \<Rightarrow> 'a list \<Rightarrow> 'a FastWhisperTranscriber
     \<Rightarrow> 'a FastWhisperTranscriber \<times> 'a SpeechSegment list" where
  "process_loop_step model now audio_chunk tr =
     (if muted tr then (tr, [])
      else (case process_chunk (vad_cfg tr) model now audio_chunk (vad tr) of
              (v, p, out) \<Rightarrow> (tr\<lparr>vad := v\<rparr>, out)))"

text \<open>
  The states a transcriber can be in: built by the constructor and then driven by
  \<open>mute\<close>, \<open>unmute\<close> and the processing loop, one call at a time.
\<close>

inductive reachable :: "('a list \<Rightarrow> real) \<Rightarrow> 'a FastWhisperTranscriber \<Rightarrow> bool"
  for model :: "'a list \<Rightarrow> real" where
  r_new: "reachable model (new_transcriber vad_threshold on_t on_i)"
| r_mute: "reachable model tr \<Longrightarrow> reachable model (mute tr)"
| r_unmute: "reachable model tr \<Longrightarrow> reachable model (unmute tr)"
| r_chunk: "reachable model tr \<Longrightarrow> reachable model (fst (process_loop_step model now c tr))"

section \<open>Frame differencing (perception/vlm/frame_diff.py)\<close>

record FrameDiffResult =
  changed :: bool
  diff_score :: real
  motion_regions :: int

record frame_diff_config =
  change_threshold :: real
  motion_threshold :: real
  min_frames_between_vlm :: int
  downsample_factor :: int

text \<open>
  The numpy computations on frames (\<open>'f\<close> is the type of a frame): the area average
  of \<open>_downsample\<close> for a factor above one, the normalised mean absolute grey
  difference \<open>diff.mean() / 255.0\<close> of \<open>_calculate_diff\<close>, and the number of active
  grid cells of \<open>_count_motion_regions\<close> for a motion threshold. Scores and thresholds
  are read as real numbers.
\<close>

record 'f image_ops =
  area_average :: "int \<Rightarrow> 'f \<Rightarrow> 'f"
  mean_abs_diff :: "'f \<Rightarrow> 'f \<Rightarrow> real"
  active_cells :: "real \<Rightarrow> 'f \<Rightarrow> 'f \<Rightarrow> int"

record 'f differ_state =
  last_frame :: "'f option"
  last_vlm_frame :: "'f option"
  frames_since_vlm :: int

definition differ_init :: "'f differ_state" where
  "differ_init = \<lparr>last_frame = None, last_vlm_frame = None, frames_since_vlm = 0\<rparr>"

definition downsample :: "frame_diff_config \<Rightarrow> 'f image_ops \<Rightarrow> 'f \<Rightarrow> 'f" where
  "downsample cfg ops frame =
     (if downsample_factor cfg \<le> 1 then frame else area_average ops (downsample_factor cfg) frame)"

definition calculate_diff :: "frame_diff_config \<Rightarrow> 'f image_ops \<Rightarrow> 'f \<Rightarrow> 'f \<Rightarrow> FrameDiffResult" where
  "calculate_diff cfg ops frame1 frame2 =
     (let score = mean_abs_diff ops frame1 frame2 in
      \<lparr>changed = (score > change_threshold cfg), diff_score = score, motion_regions = 0\<rparr>)"

definition count_motion_regions :: "frame_diff_config \<Rightarrow> 'f image_ops \<Rightarrow> 'f \<Rightarrow> 'f \<Rightarrow> int" where
  "count_motion_regions cfg ops frame1 frame2 = active_cells ops (motion_threshold cfg) frame1 frame2"

text \<open>
  The decision of \<open>should_run_vlm\<close>, assignment by assignment, from the counter
  after its increment, the score against the last analysed frame and the region count.
\<close>

definition decide :: "frame_diff_config \<Rightarrow> int \<Rightarrow> real \<Rightarrow> int \<Rightarrow> bool" where
  "decide cfg frames score regions =
     (let should_run = False;
          should_run = (if frames \<ge> min_frames_between_vlm cfg
                        then (if score > motion_threshold cfg then True else should_run)
                        else should_run);
          should_run = (if score > change_threshold cfg then True else should_run);
          should_run = (if regions \<ge> 3 \<and> score > motion_threshold cfg then True else should_run)
      in should_run)"

text \<open>
  \<open>should_run_vlm\<close>: the decision, the result record and the new state. A state
  with a previous frame and no analysed frame does not arise from the constructor; the
  source would then fail on \<open>None.mean\<close>.
\<close>

definition should_run_vlm ::
  "frame_diff_config \<Rightarrow> 'f image_ops \<Rightarrow> 'f \<Rightarrow> 'f differ_state
     \<Rightarrow> py_error + (bool \<times> FrameDiffResult \<times> 'f differ_state)" where
  "should_run_vlm cfg ops frame s =
     (let s0 = s\<lparr>frames_since_vlm := frames_since_vlm s + 1\<rparr>;
          small_frame = downsample cfg ops frame
      in case last_frame s0 of
           None \<Rightarrow>
             Inr (True, \<lparr>changed = True, diff_score = 1, motion_regions = 0\<rparr>,
                  s0\<lparr>last_frame := Some small_frame, last_vlm_frame := Some small_frame,
                     frames_since_vlm := 0\<rparr>)
         | Some lf \<Rightarrow>
             (case last_vlm_frame s0 of
                None \<Rightarrow> Inl AttributeError
              | Some lv \<Rightarrow>
                  (let diff_from_last = calculate_diff cfg ops lf small_frame;
                       diff_from_vlm = calculate_diff cfg ops lv small_frame;
                       s1 = s0\<lparr>last_frame := Some small_frame\<rparr>;
                       regions = count_motion_regions cfg ops lv small_frame;
                       result = \<lparr>changed = changed diff_from_vlm,
                                 diff_score = diff_score diff_from_vlm,
                                 motion_regions = regions\<rparr>;
                       should_run = decide cfg (frames_since_vlm s1) (diff_score diff_from_vlm) regions
                   in if should_run
                      then Inr (should_run, result,
                             s1\<lparr>last_vlm_frame := Some small_frame, frames_since_vlm := 0\<rparr>)
                      else Inr (should_run, result, s1))))"

text \<open>
  Example material: grey images of 8 by 8 pixels (the three colour channels equal),
  given as the list of their 64 grey levels, so that each cell of the 8 by 8 grid of
  \<open>_count_motion_regions\<close> holds one pixel: the score is the mean absolute difference
  over the pixels divided by 255, and a cell is active when the difference of its pixel
  exceeds the motion threshold times 255. \<open>two_level_frame a b\<close> has two pixels of
  level \<open>a\<close> and 62 of level \<open>b\<close>. The example differencers have
  \<open>downsample_factor = 1\<close>, so no area average is taken.
\<close>

definition grid_ops :: "int list image_ops" where
  "grid_ops =
     \<lparr>area_average = (\<lambda>k f. f),
      mean_abs_diff = (\<lambda>a b. real_of_int (\<Sum>(x, y)\<leftarrow>zip a b. \<bar>x - y\<bar>) / real (length a) / 255),
      active_cells = (\<lambda>thr a b.
         int (length (filter (\<lambda>(x, y). real_of_int \<bar>x - y\<bar> > thr * 255) (zip a b))))\<rparr>"

definition two_level_frame :: "int \<Rightarrow> int \<Rightarrow> int list" where
  "two_level_frame a b = a # a # replicate 62 b"

definition plain_differ :: frame_diff_config where
  "plain_differ = \<lparr>change_threshold = 5 / 100, motion_threshold = 2 / 100,
                   min_frames_between_vlm = 5, downsample_factor = 1\<rparr>"

section \<open>Echo cancellation (perception/audio/echo_cancellation.py)\<close>

datatype AudioState = LISTENING | SPEAKING | INTERRUPT_CHECK

text \<open>
  The manager: its state, whether \<open>on_state_change\<close> is set, the interrupt thread it
  holds (threads are numbered as they are started), the stop event, and what the
  outside sees: the states the callback was called with and the number of threads
  started so far.
\<close>

record EchoCancellationManager =
  state :: AudioState
  on_state_change :: bool
  interrupt_thread :: "nat option"
  stop_interrupt_checks :: bool
  notified :: "AudioState list"
  threads_started :: nat



definition notify_state_change :: "AudioState \<Rightarrow> EchoCancellationManager \<Rightarrow> EchoCancellationManager" where
  "notify_state_change a m = (if on_state_change m then m\<lparr>notified := notified m @ [a]\<rparr> else m)"

definition start_speaking :: "EchoCancellationManager \<Rightarrow> EchoCancellationManager" where
  "start_speaking m =
     (if state m = SPEAKING then m
      else
        (let m1 = m\<lparr>state := SPEAKING\<rparr>;
             m2 = notify_state_change SPEAKING m1;
             m3 = m2\<lparr>stop_interrupt_checks := False\<rparr>
         in m3\<lparr>interrupt_thread := Some (threads_started m3),
                threads_started := threads_started m3 + 1\<rparr>))"




section \<open>Interruptible playback (perception/tts/piper_service.py)\<close>

text \<open>
  \<open>PiperTTS\<close> is shared by the caller's thread and the background playback thread. The
  object: the queue of generated audio files, the playback process (the file it plays
  and whether it still runs, that is whether \<open>poll()\<close> is \<open>None\<close>), the interrupted
  flag, and whether the playback thread has been started. \<open>pc\<close> is where the playback
  thread stands in \<open>_playback_loop\<close> and \<open>_play_audio\<close>; \<open>events\<close> records, in
  order, each start of a playback process and each return of \<open>interrupt()\<close>.
\<close>

datatype playback_pc =
    Waiting
  | Got string
  | In_play_audio string
  | Before_popen string
  | Playing string
  | Cleanup string

datatype playback_event = Started string | Interrupt_returned

record PiperTTS =
  audio_queue :: "string list"
  playback_thread :: bool
  playback_process :: "(string \<times> bool) option"
  interrupted :: bool
  pc :: playback_pc
  events :: "playback_event list"

definition new_tts :: PiperTTS where
  "new_tts = \<lparr>audio_queue = [], playback_thread = False, playback_process = None,
              interrupted = False, pc = Waiting, events = []\<rparr>"

text \<open>
  \<open>speak(text, blocking=False)\<close> for a text that yields audio, \<open>audio_path\<close> being the
  generated file: the flag is cleared, the file is queued and the playback thread is
  started if it does not run.
\<close>

definition speak_nonblocking :: "string \<Rightarrow> PiperTTS \<Rightarrow> PiperTTS" where
  "speak_nonblocking audio_path s =
     s\<lparr>interrupted := False, audio_queue := audio_queue s @ [audio_path],
       playback_thread := True\<rparr>"

text \<open>
  \<open>interrupt()\<close>, run without the playback thread being scheduled in between: set the
  flag, terminate the playback process if one is running, empty the queue, return.
\<close>

definition interrupt :: "PiperTTS \<Rightarrow> PiperTTS" where
  "interrupt s =
     (let s1 = s\<lparr>interrupted := True\<rparr>;
          s2 = (case playback_process s1 of
                  Some (f, True) \<Rightarrow> s1\<lparr>playback_process := Some (f, False)\<rparr>
                | _ \<Rightarrow> s1);
          s3 = s2\<lparr>audio_queue := []\<rparr>
      in s3\<lparr>events := events s3 @ [Interrupt_returned]\<rparr>)"

definition is_speaking :: "PiperTTS \<Rightarrow> bool" where
  "is_speaking s =
     (case playback_process s of
        Some (f, True) \<Rightarrow> True
      | _ \<Rightarrow> audio_queue s \<noteq> [])"

text \<open>
  One step of the playback thread. \<open>Waiting\<close>: \<open>queue.get\<close> (a timeout loops back).
  \<open>Got\<close>: the test \<open>if not self._interrupted\<close> of the loop. \<open>In_play_audio\<close>: the test
  \<open>if self._interrupted: return\<close> that opens \<open>_play_audio\<close>. \<open>Before_popen\<close>: taking
  the lock and starting the process. \<open>Playing\<close>: \<open>wait()\<close>, which returns once the
  process has ended, and the \<open>finally\<close> clause. \<open>Cleanup\<close>: \<open>os.unlink\<close>.
\<close>

definition thread_step :: "PiperTTS \<Rightarrow> PiperTTS" where
  "thread_step s =
     (if \<not> playback_thread s then s
      else
        (case pc s of
           Waiting \<Rightarrow>
             (case audio_queue s of
                [] \<Rightarrow> s
              | f # q \<Rightarrow> s\<lparr>audio_queue := q, pc := Got f\<rparr>)
         | Got f \<Rightarrow> (if \<not> interrupted s then s\<lparr>pc := In_play_audio f\<rparr> else s\<lparr>pc := Cleanup f\<rparr>)
         | In_play_audio f \<Rightarrow> (if interrupted s then s\<lparr>pc := Cleanup f\<rparr> else s\<lparr>pc := Before_popen f\<rparr>)
         | Before_popen f \<Rightarrow>
             s\<lparr>playback_process := Some (f, True), events := events s @ [Started f], pc := Playing f\<rparr>
         | Playing f \<Rightarrow>
             (case playback_process s of
                Some (g, True) \<Rightarrow> s
              | _ \<Rightarrow> s\<lparr>playback_process := None, pc := Cleanup f\<rparr>)
         | Cleanup f \<Rightarrow> s\<lparr>pc := Waiting\<rparr>))"

text \<open>A schedule: which thread moves next, and what the caller does.\<close>

datatype action = Speak string | Interrupt | Thread_step

fun perform :: "action \<Rightarrow> PiperTTS \<Rightarrow> PiperTTS" where
  "perform (Speak f) s = speak_nonblocking f s"
| "perform Interrupt s = interrupt s"
| "perform Thread_step s = thread_step s"

definition run_schedule :: "action list \<Rightarrow> PiperTTS \<Rightarrow> PiperTTS" where
  "run_schedule acts s = fold perform acts s"

section \<open>Auxiliary definitions for the statements\<close>

text \<open>
  Handling a list of commands one after the other with \<open>_handle_command\<close>, up to the
  first exception (without the early exit of \<open>run\<close>).
\<close>

fun handle_all :: "'x hooks \<Rightarrow> Command list \<Rightarrow> 'x BaseSense \<Rightarrow> 'x BaseSense \<times> py_error option" where
  "handle_all h [] s = (s, None)"
| "handle_all h (cmd # cmds) s =
     (case handle_command h cmd s of
        (s1, Some e) \<Rightarrow> (s1, Some e)
      | (s1, None) \<Rightarrow> handle_all h cmds s1)"

definition start_cmd :: Command where
  "start_cmd = \<lparr>command = JStr ''start'', options = JObj []\<rparr>"

definition stop_cmd :: Command where
  "stop_cmd = \<lparr>command = JStr ''stop'', options = JObj []\<rparr>"

text \<open>A VAD whose buffer is empty is in its initial (idle) state.\<close>

definition vad_idle_when_empty :: "'a vad_state \<Rightarrow> bool" where
  "vad_idle_when_empty v = (speech_buffer v = [] \<longrightarrow> v = vad_init)"

definition is_transcription_event :: "callback_event \<Rightarrow> bool" where
  "is_transcription_event e = (case e of Transcription_fired r \<Rightarrow> True | Interrupt_fired t \<Rightarrow> False)"

text \<open>
  A differencer built with the change threshold below the motion threshold, and the
  state after a first frame that is all black.
\<close>

definition inverted_differ :: frame_diff_config where
  "inverted_differ = \<lparr>change_threshold = 1 / 100, motion_threshold = 2 / 100,
                      min_frames_between_vlm = 5, downsample_factor = 1\<rparr>"

definition after_first_frame :: "int list differ_state" where
  "after_first_frame = \<lparr>last_frame = Some (two_level_frame 0 0),
                        last_vlm_frame = Some (two_level_frame 0 0), frames_since_vlm = 0\<rparr>"

text \<open>
  Two notions used to follow a session while it is being accumulated. \<open>run_silence b u\<close>
  is the silence counter after the chunks \<open>u\<close> when it was \<open>b\<close> before them.
  \<open>continues a b w\<close>: a session that has so far gathered \<open>a\<close> speech samples and
  \<open>b\<close> samples of closing silence is completed by exactly the chunks \<open>w\<close>.
\<close>

definition run_silence :: "vad_config \<Rightarrow> ('a list \<Rightarrow> real) \<Rightarrow> int \<Rightarrow> (real \<times> 'a list) list \<Rightarrow> int" where
  "run_silence cfg model b u =
     (if list_all (\<lambda>x. \<not> is_speech_chunk cfg model (snd x)) u then b + total_samples u
      else trailing_silence cfg model u)"

definition continues :: "vad_config \<Rightarrow> ('a list \<Rightarrow> real) \<Rightarrow> int \<Rightarrow> int \<Rightarrow> (real \<times> 'a list) list \<Rightarrow> bool" where
  "continues cfg model a b w =
     (w \<noteq> [] \<and> \<not> is_speech_chunk cfg model (snd (last w)) \<and>
      a + speech_total cfg model w \<ge> min_speech_samples cfg \<and>
      run_silence cfg model b w \<ge> min_silence_samples cfg \<and>
      (\<forall>u v. w = u @ v \<and> u \<noteq> [] \<and> v \<noteq> [] \<and> \<not> is_speech_chunk cfg model (snd (last u))
         \<longrightarrow> run_silence cfg model b u < min_silence_samples cfg))"

definition front :: "vad_config \<Rightarrow> ('a list \<Rightarrow> real) \<Rightarrow> int \<Rightarrow> int \<Rightarrow> (real \<times> 'a list) list \<Rightarrow> bool" where
  "front cfg model a b xs = (\<exists>w post. xs = w @ post \<and> continues cfg model a b w)"

text \<open>
  \<open>tracks s hist\<close>: the state \<open>s\<close> is what the chunks \<open>hist\<close> of the session in
  progress have left (no chunks and an empty buffer when no session is in progress).
\<close>

definition tracks :: "vad_config \<Rightarrow> ('a list \<Rightarrow> real) \<Rightarrow> 'a vad_state \<Rightarrow> (real \<times> 'a list) list \<Rightarrow> bool" where
  "tracks cfg model s hist =
     (if in_speech s then
        hist \<noteq> [] \<and> is_speech_chunk cfg model (snd (hd hist)) \<and>
        speech_buffer s = map snd hist \<and>
        speech_samples s = speech_total cfg model hist \<and>
        silence_samples s = trailing_silence cfg model hist \<and>
        (\<forall>u v. hist = u @ v \<and> u \<noteq> [] \<and> \<not> is_speech_chunk cfg model (snd (last u))
           \<longrightarrow> trailing_silence cfg model u < min_silence_samples cfg)
      else hist = [] \<and> speech_buffer s = [])"

text \<open>While a session is in progress the speech counter is not negative and the buffer is not empty.\<close>

definition steady :: "'a vad_state \<Rightarrow> bool" where
  "steady s = (in_speech s \<longrightarrow> 0 \<le> speech_samples s \<and> speech_buffer s \<noteq> [])"

text \<open>
  Example material: a segmenter with 50 ms for both thresholds (800 samples each), and
  five chunks: speech, silence, speech, silence, silence.
\<close>

definition short_pause_cfg :: vad_config where
  "short_pause_cfg = SileroVAD (1 / 2) 50 50 100 True"

definition pause_example :: "(real \<times> int list) list" where
  "pause_example =
     [(0, const_chunk 1), (1, const_chunk 0), (2, const_chunk 1), (3, const_chunk 0),
      (4, const_chunk 0)]"

definition run_example :: "(real \<times> int list) list" where
  "run_example = [(0, const_chunk 1), (1, const_chunk 1), (2, const_chunk 0), (3, const_chunk 0)]"

chapter \<open>Verified properties\<close>

section \<open>Sense lifecycle\<close>

lemma calls_call_start: "calls (fst (call_start h s)) = calls s @ [Start_call]"
  by (simp add: call_start_def Let_def split: option.splits)

lemma running_call_start: "running (fst (call_start h s)) = running s"
  by (simp add: call_start_def Let_def split: option.splits)

lemma calls_call_stop: "calls (fst (call_stop h s)) = calls s @ [Stop_call]"
  by (simp add: call_stop_def Let_def split: option.splits)

lemma running_call_stop: "running (fst (call_stop h s)) = running s"
  by (simp add: call_stop_def Let_def split: option.splits)

lemma configure_calls:
  "\<exists>new. calls (fst (configure h opts s)) = calls s @ new \<and>
     Start_call \<notin> set new \<and> Stop_call \<notin> set new \<and> edges r new = Some r"
  by (auto simp add: configure_def Let_def split: json.splits option.splits)

lemma running_configure: "running (fst (configure h opts s)) = running s"
  by (auto simp add: configure_def Let_def split: json.splits option.splits)

lemma edges_append:
  "edges r (xs @ ys) = (case edges r xs of None \<Rightarrow> None | Some r1 \<Rightarrow> edges r1 ys)"
  by (induction r xs rule: edges.induct) auto

text \<open>One command: what is appended to the log, and how it sits on \<open>running\<close>.\<close>

lemma handle_command_step:
  "\<exists>new. calls (fst (handle_command h cmd s)) = calls s @ new \<and>
     edges (running s) new = Some (running (fst (handle_command h cmd s))) \<and>
     (Start_call \<in> set new \<longleftrightarrow> command cmd = JStr ''start'' \<and> \<not> running s) \<and>
     (Stop_call \<in> set new \<longleftrightarrow> command cmd = JStr ''stop'' \<and> running s)"
proof -
  consider (start) "command cmd = JStr ''start''" "\<not> running s"
    | (stop) "command cmd = JStr ''stop''" "running s"
    | (conf) "command cmd = JStr ''configure''"
    | (idle) "handle_command h cmd s = (s, None)"
        "\<not> (command cmd = JStr ''start'' \<and> \<not> running s)"
        "\<not> (command cmd = JStr ''stop'' \<and> running s)"
    by (cases "command cmd = JStr ''start''"; cases "command cmd = JStr ''stop''";
        cases "running s"; cases "command cmd = JStr ''configure''")
       (simp_all add: handle_command_def)
  then show ?thesis
  proof cases
    case start
    then have "calls (fst (handle_command h cmd s)) = calls s @ [Start_call]"
      and "running (fst (handle_command h cmd s))"
      by (simp_all add: handle_command_def calls_call_start running_call_start)
    with start show ?thesis by (intro exI[of _ "[Start_call]"]) simp
  next
    case stop
    then have "calls (fst (handle_command h cmd s)) = calls s @ [Stop_call]"
      and "\<not> running (fst (handle_command h cmd s))"
      by (simp_all add: handle_command_def calls_call_stop running_call_stop)
    with stop show ?thesis by (intro exI[of _ "[Stop_call]"]) simp
  next
    case conf
    then have eq: "handle_command h cmd s = configure h (options cmd) s"
      by (simp add: handle_command_def)
    from configure_calls[of h "options cmd" s "running s"] obtain new where
      "calls (fst (configure h (options cmd) s)) = calls s @ new" "Start_call \<notin> set new"
      "Stop_call \<notin> set new" "edges (running s) new = Some (running s)" by blast
    with conf eq show ?thesis
      by (intro exI[of _ new]) (simp add: running_configure)
  next
    case idle
    then show ?thesis by (intro exI[of _ "[]"]) simp
  qed
qed

lemma handle_all_edges:
  "\<exists>new. calls (fst (handle_all h cmds s)) = calls s @ new \<and>
     edges (running s) new = Some (running (fst (handle_all h cmds s)))"
proof (induction cmds arbitrary: s)
  case Nil
  show ?case by simp
next
  case (Cons cmd cmds)
  obtain s1 e where hc: "handle_command h cmd s = (s1, e)" by (cases "handle_command h cmd s")
  from handle_command_step[of h cmd s] hc obtain n1 where
    n1: "calls s1 = calls s @ n1" "edges (running s) n1 = Some (running s1)" by auto
  show ?case
  proof (cases e)
    case None
    then have eq: "handle_all h (cmd # cmds) s = handle_all h cmds s1"
      using hc by simp
    from Cons.IH[of s1] obtain n2 where
      n2: "calls (fst (handle_all h cmds s1)) = calls s1 @ n2"
          "edges (running s1) n2 = Some (running (fst (handle_all h cmds s1)))" by blast
    show ?thesis unfolding eq
      by (intro exI[of _ "n1 @ n2"]) (simp add: n1 n2 edges_append)
  next
    case (Some err)
    then have eq: "fst (handle_all h (cmd # cmds) s) = s1"
      using hc by simp
    show ?thesis unfolding eq by (intro exI[of _ n1]) (simp add: n1)
  qed
qed

lemma run_commands_edges:
  "\<exists>new. calls (fst (run_commands h cmds s)) = calls s @ new \<and>
     edges (running s) new = Some (running (fst (run_commands h cmds s)))"
proof (induction cmds arbitrary: s)
  case Nil
  show ?case by simp
next
  case (Cons cmd cmds)
  obtain s1 e where hc: "handle_command h cmd s = (s1, e)" by (cases "handle_command h cmd s")
  from handle_command_step[of h cmd s] hc obtain n1 where
    n1: "calls s1 = calls s @ n1" "edges (running s) n1 = Some (running s1)" by auto
  show ?case
  proof (cases "e = None \<and> \<not> (\<not> running s1 \<and> command cmd = JStr ''stop'')")
    case True
    then have eq: "run_commands h (cmd # cmds) s = run_commands h cmds s1"
      using hc by auto
    from Cons.IH[of s1] obtain n2 where
      n2: "calls (fst (run_commands h cmds s1)) = calls s1 @ n2"
          "edges (running s1) n2 = Some (running (fst (run_commands h cmds s1)))" by blast
    show ?thesis unfolding eq
      by (intro exI[of _ "n1 @ n2"]) (simp add: n1 n2 edges_append)
  next
    case False
    then have eq: "fst (run_commands h (cmd # cmds) s) = s1"
      using hc by (cases e) auto
    show ?thesis unfolding eq by (intro exI[of _ n1]) (simp add: n1)
  qed
qed

text \<open>
  Claim C10. A \<open>start\<close> command received while \<open>running\<close> is true leaves the sense as
  it is (no \<open>_start\<close>), and so does a \<open>stop\<close> command received while \<open>running\<close> is
  false (no \<open>_stop\<close>). Whatever the command, \<open>_start\<close> is among the hooks it invokes
  exactly when \<open>running\<close> goes from false to true, and \<open>_stop\<close> exactly when it goes
  from true to false. Over any list of commands, handled one by one or by the loop of
  \<open>run\<close>, every \<open>_start\<close> and \<open>_stop\<close> in the log sits on such a transition.
\<close>

theorem sense_hooks_only_on_transitions:
  "(running s \<longrightarrow> handle_command h \<lparr>command = JStr ''start'', options = opts\<rparr> s = (s, None)) \<and>
   (\<not> running s \<longrightarrow> handle_command h \<lparr>command = JStr ''stop'', options = opts\<rparr> s = (s, None)) \<and>
   (\<exists>new. calls (fst (handle_command h cmd s)) = calls s @ new \<and>
      (Start_call \<in> set new \<longleftrightarrow> \<not> running s \<and> running (fst (handle_command h cmd s))) \<and>
      (Stop_call \<in> set new \<longleftrightarrow> running s \<and> \<not> running (fst (handle_command h cmd s)))) \<and>
   (\<exists>new. calls (fst (handle_all h cmds s)) = calls s @ new \<and>
      edges (running s) new = Some (running (fst (handle_all h cmds s)))) \<and>
   (\<exists>new. calls (fst (run_commands h cmds s)) = calls s @ new \<and>
      edges (running s) new = Some (running (fst (run_commands h cmds s))))"
proof (intro conjI)
  show "running s \<longrightarrow> handle_command h \<lparr>command = JStr ''start'', options = opts\<rparr> s = (s, None)"
    by (simp add: handle_command_def)
  show "\<not> running s \<longrightarrow> handle_command h \<lparr>command = JStr ''stop'', options = opts\<rparr> s = (s, None)"
    by (simp add: handle_command_def)
  show "\<exists>new. calls (fst (handle_all h cmds s)) = calls s @ new \<and>
      edges (running s) new = Some (running (fst (handle_all h cmds s)))"
    by (rule handle_all_edges)
  show "\<exists>new. calls (fst (run_commands h cmds s)) = calls s @ new \<and>
      edges (running s) new = Some (running (fst (run_commands h cmds s)))"
    by (rule run_commands_edges)
  from handle_command_step[of h cmd s] obtain new where
    n: "calls (fst (handle_command h cmd s)) = calls s @ new"
       "Start_call \<in> set new \<longleftrightarrow> command cmd = JStr ''start'' \<and> \<not> running s"
       "Stop_call \<in> set new \<longleftrightarrow> command cmd = JStr ''stop'' \<and> running s" by blast
  have r1: "command cmd = JStr ''start'' \<Longrightarrow> \<not> running s \<Longrightarrow> running (fst (handle_command h cmd s))"
    by (simp add: handle_command_def running_call_start)
  have r2: "command cmd = JStr ''stop'' \<Longrightarrow> running s \<Longrightarrow> \<not> running (fst (handle_command h cmd s))"
    by (simp add: handle_command_def running_call_stop)
  have r3: "command cmd \<noteq> JStr ''start'' \<Longrightarrow> \<not> running s \<Longrightarrow> \<not> running (fst (handle_command h cmd s))"
    by (simp add: handle_command_def running_configure)
  have r4: "command cmd \<noteq> JStr ''stop'' \<Longrightarrow> running s \<Longrightarrow> running (fst (handle_command h cmd s))"
    by (simp add: handle_command_def running_configure)
  show "\<exists>new. calls (fst (handle_command h cmd s)) = calls s @ new \<and>
      (Start_call \<in> set new \<longleftrightarrow> \<not> running s \<and> running (fst (handle_command h cmd s))) \<and>
      (Stop_call \<in> set new \<longleftrightarrow> running s \<and> \<not> running (fst (handle_command h cmd s)))"
    using n r1 r2 r3 r4 by (intro exI[of _ new]) blast
qed

theorem sense_hooks_only_on_transitions_witness:
  "handle_command no_hooks start_cmd (new_sense\<lparr>running := True\<rparr>) = (new_sense\<lparr>running := True\<rparr>, None) \<and>
   handle_command no_hooks stop_cmd new_sense = (new_sense, None) \<and>
   calls (fst (handle_all no_hooks [start_cmd, start_cmd, stop_cmd, stop_cmd, start_cmd] new_sense))
     = [Start_call, Stop_call, Start_call] \<and>
   edges False [Start_call, Stop_call, Start_call] = Some True \<and>
   calls (fst (run_commands no_hooks [start_cmd, start_cmd, stop_cmd, stop_cmd, start_cmd] new_sense))
     = [Start_call, Stop_call]"
  using
    sense_hooks_only_on_transitions[of "new_sense\<lparr>running := True\<rparr>" no_hooks "JObj []" start_cmd
      "[start_cmd, start_cmd, stop_cmd, stop_cmd, start_cmd]"]
    sense_hooks_only_on_transitions[of new_sense no_hooks "JObj []" stop_cmd
      "[start_cmd, start_cmd, stop_cmd, stop_cmd, start_cmd]"]
  by (simp add: start_cmd_def stop_cmd_def new_sense_def no_hooks_def handle_command_def
        call_start_def call_stop_def)

section \<open>Protocol\<close>

lemma from_json_not_json: "loads line = None \<Longrightarrow> from_json loads line = Inr None"
  by (simp add: from_json_def)

lemma from_json_object_never_raises:
  "loads line = Some (JObj d) \<Longrightarrow> \<exists>r. from_json loads line = Inr r"
  by (simp add: from_json_def split: option.splits)

lemma from_json_object_without_command:
  "loads line = Some (JObj d) \<Longrightarrow> map_of d ''command'' = None \<Longrightarrow> from_json loads line = Inr None"
  by (simp add: from_json_def)

lemma from_json_non_object:
  "loads line = Some v \<Longrightarrow> (\<forall>d. v \<noteq> JObj d) \<Longrightarrow> from_json loads line = Inl AttributeError"
  by (cases v) (simp_all add: from_json_def)

text \<open>
  Claim C3. The claim is that no malformed line makes \<open>Command.from_json\<close> or
  \<open>read_commands\<close> raise. A line that is not JSON and an object without the
  \<open>command\<close> key are indeed dropped (\<open>from_json\<close> returns \<open>None\<close>). A line that is
  valid JSON but no object (an array, a number, \<open>null\<close>) makes \<open>data.get\<close> raise
  \<open>AttributeError\<close>, which the \<open>except\<close> clause does not catch: \<open>from_json\<close>
  raises, the generator ends with that exception, and the commands on later lines are
  never read.
\<close>

theorem from_json_raises_on_non_object:
  "from_json sample_loads ''[1]'' = Inl AttributeError \<and>
   from_json sample_loads ''3'' = Inl AttributeError \<and>
   from_json sample_loads ''null'' = Inl AttributeError \<and>
   from_json sample_loads ''not json'' = Inr None \<and>
   from_json sample_loads ''{}'' = Inr None \<and>
   from_json sample_loads ''{\"type\": \"command\"}'' = Inr None \<and>
   read_commands sample_loads
     [''{\"command\": \"start\"}'', ''not json'', ''[1]'', ''{\"command\": \"stop\"}''] =
     ([\<lparr>command = JStr ''start'', options = JObj []\<rparr>], Some AttributeError)"
  by (simp add: from_json_def sample_loads_def strip_def isspace_def)

section \<open>Echo cancellation\<close>

lemma start_speaking_when_speaking:
  "state m = SPEAKING \<Longrightarrow> start_speaking m = m"
  by (simp add: start_speaking_def)

lemma start_speaking_twice_without_window:
  "start_speaking (start_speaking m) = start_speaking m"
  by (simp add: start_speaking_def Let_def notify_state_change_def)

lemma start_speaking_from_other_state:
  "state m \<noteq> SPEAKING \<Longrightarrow> on_state_change m \<Longrightarrow>
   state (start_speaking m) = SPEAKING \<and>
   notified (start_speaking m) = notified m @ [SPEAKING] \<and>
   threads_started (start_speaking m) = threads_started m + 1 \<and>
   interrupt_thread (start_speaking m) = Some (threads_started m)"
  by (simp add: start_speaking_def Let_def notify_state_change_def)


section \<open>Mute and unmute\<close>

lemma reset_is_init: "reset (s :: 'a vad_state) = vad_init"
  by (simp add: reset_def vad_init_def)

lemma process_chunk_idle_when_empty:
  "vad_idle_when_empty v \<Longrightarrow> vad_idle_when_empty (fst (process_chunk cfg model now c v))"
  by (auto simp add: vad_idle_when_empty_def process_chunk_def emit_segment_def Let_def
        vad_init_def reset_def)

lemma reachable_idle_when_empty:
  "reachable model tr \<Longrightarrow> vad_idle_when_empty (vad tr)"
proof (induction rule: reachable.induct)
  case (r_new vad_threshold on_t on_i)
  show ?case by (simp add: new_transcriber_def vad_idle_when_empty_def)
next
  case (r_mute tr)
  show ?case by (simp add: mute_def vad_idle_when_empty_def reset_is_init)
next
  case (r_unmute tr)
  show ?case by (simp add: unmute_def vad_idle_when_empty_def reset_is_init)
next
  case (r_chunk tr now c)
  then show ?case
    using process_chunk_idle_when_empty[of "vad tr" "vad_cfg tr" model now c]
    by (auto simp add: process_loop_step_def split: prod.splits)
qed

text \<open>
  Claim C9, as stated, fails on a transcriber that is already muted. Take a new
  transcriber and call \<open>mute()\<close>: the buffer is empty and the flag is set. A further
  \<open>mute()\<close> directly followed by \<open>unmute()\<close> leaves the flag cleared, so the state is
  not the one before that \<open>mute()\<close>.
\<close>

theorem mute_unmute_already_muted_counterexample:
  "reachable first_sample_model
     (mute (new_transcriber (1 / 2) True True :: int FastWhisperTranscriber)) \<and>
   speech_buffer (vad (mute (new_transcriber (1 / 2) True True :: int FastWhisperTranscriber))) = [] \<and>
   muted (mute (new_transcriber (1 / 2) True True :: int FastWhisperTranscriber)) \<and>
   muted (unmute (mute (mute (new_transcriber (1 / 2) True True :: int FastWhisperTranscriber))))
     = False \<and>
   unmute (mute (mute (new_transcriber (1 / 2) True True :: int FastWhisperTranscriber)))
     \<noteq> mute (new_transcriber (1 / 2) True True)"
proof -
  have r: "reachable first_sample_model
     (mute (new_transcriber (1 / 2) True True :: int FastWhisperTranscriber))"
    by (rule r_mute) (rule r_new)
  have m: "muted (mute (new_transcriber (1 / 2) True True :: int FastWhisperTranscriber))"
    by (simp add: mute_def)
  have u: "muted (unmute (mute (mute (new_transcriber (1 / 2) True True :: int FastWhisperTranscriber))))
     = False"
    by (simp add: unmute_def)
  have n: "unmute (mute (mute (new_transcriber (1 / 2) True True :: int FastWhisperTranscriber)))
     \<noteq> mute (new_transcriber (1 / 2) True True)"
    using m u by metis
  show ?thesis using r m u n by (simp add: mute_def reset_is_init vad_init_def)
qed

text \<open>
  Claim C9, amended. In every state the constructor, \<open>mute\<close>, \<open>unmute\<close> and the
  processing loop lead to, an empty buffer means an idle VAD. So when the VAD buffer
  is empty, \<open>mute()\<close> directly followed by \<open>unmute()\<close> leaves the buffer, both
  counters, \<open>in_speech\<close>, the start time and everything else as they were and the mute
  flag cleared: the round trip gives back the very same state exactly when the
  transcriber was not muted before.
\<close>

theorem mute_unmute_clears_flag_only:
  "reachable model tr \<Longrightarrow> speech_buffer (vad tr) = [] \<Longrightarrow>
   unmute (mute tr) = tr\<lparr>muted := False\<rparr> \<and> (unmute (mute tr) = tr \<longleftrightarrow> \<not> muted tr)"
proof -
  assume r: "reachable model tr" and e: "speech_buffer (vad tr) = []"
  from reachable_idle_when_empty[OF r] e have v: "vad tr = vad_init"
    by (simp add: vad_idle_when_empty_def)
  then have u: "unmute (mute tr) = tr\<lparr>muted := False\<rparr>"
    by (simp add: mute_def unmute_def Let_def reset_is_init)
  have "tr\<lparr>muted := False\<rparr> = tr \<longleftrightarrow> \<not> muted tr"
  proof
    assume "tr\<lparr>muted := False\<rparr> = tr"
    then have "muted (tr\<lparr>muted := False\<rparr>) = muted tr" by simp
    then show "\<not> muted tr" by simp
  next
    assume "\<not> muted tr"
    then show "tr\<lparr>muted := False\<rparr> = tr" by simp
  qed
  with u show ?thesis by simp
qed

theorem mute_unmute_clears_flag_only_witness:
  "unmute (mute (new_transcriber (1 / 2) True True :: int FastWhisperTranscriber))
     = new_transcriber (1 / 2) True True \<and>
   speech_buffer (vad (new_transcriber (1 / 2) True True :: int FastWhisperTranscriber)) = [] \<and>
   muted (new_transcriber (1 / 2) True True :: int FastWhisperTranscriber) = False \<and>
   muted (mute (new_transcriber (1 / 2) True True :: int FastWhisperTranscriber)) \<and>
   unmute (mute (mute (new_transcriber (1 / 2) True True :: int FastWhisperTranscriber)))
     = new_transcriber (1 / 2) True True"
proof -
  have r: "reachable first_sample_model (new_transcriber (1 / 2) True True :: int FastWhisperTranscriber)"
    by (rule r_new)
  have e: "speech_buffer (vad (new_transcriber (1 / 2) True True :: int FastWhisperTranscriber)) = []"
    by (simp add: new_transcriber_def vad_init_def)
  have m: "muted (new_transcriber (1 / 2) True True :: int FastWhisperTranscriber) = False"
    by (simp add: new_transcriber_def)
  have a: "unmute (mute (new_transcriber (1 / 2) True True :: int FastWhisperTranscriber))
     = new_transcriber (1 / 2) True True"
    using mute_unmute_clears_flag_only[OF r e] m by simp
  have b: "unmute (mute (mute (new_transcriber (1 / 2) True True :: int FastWhisperTranscriber)))
     = new_transcriber (1 / 2) True True"
    using a by (simp add: mute_def unmute_def reset_is_init)
  show ?thesis using a b e m by (simp add: mute_def)
qed

section \<open>Hallucination filter and segment handling\<close>

text \<open>
  Claim C8. \<open>is_hallucination\<close> is true for "the the the" (a word repeated three
  times) and for "   " (nothing is left after \<open>strip\<close>), and false for
  "Kira, what's the weather?"; that text is classified as an interrupt because its lower
  case form contains "kira".
\<close>

theorem hallucination_filter_examples:
  "is_hallucination ''the the the'' \<and>
   is_hallucination ''   '' \<and>
   \<not> is_hallucination ''Kira, what's the weather?'' \<and>
   is_interrupt ''Kira, what's the weather?'' \<and>
   contains ''kira'' (lower ''Kira, what's the weather?'') \<and>
   repeated_word (lower (strip ''the the the'')) \<and>
   strip ''   '' = []"
  by code_simp

text \<open>
  Claim C2, as stated, fails: while muted, the text "wait wait wait" contains the
  interrupt keyword "wait", yet \<open>_handle_speech\<close> calls no callback at all, because
  the hallucination filter (a word repeated three times) returns before the keyword
  check.
\<close>

theorem muted_interrupt_counterexample:
  "muted (mute (new_transcriber (1 / 2) True True :: int FastWhisperTranscriber)) \<and>
   is_interrupt ''wait wait wait'' \<and>
   handle_speech (mute (new_transcriber (1 / 2) True True :: int FastWhisperTranscriber))
     (Some ([''wait wait wait''], Some ''en'')) 120 = []"
  by code_simp

text \<open>
  Claim C2, amended. While muted, \<open>_handle_speech\<close> never calls \<open>on_transcription\<close>,
  and it calls \<open>on_interrupt\<close> (once, with the text) exactly when a callback is set
  and the stripped text is not empty, passes the hallucination filter and contains an
  interrupt keyword. The interrupt callback is decided the same way when not muted:
  without its \<open>on_transcription\<close> calls, the unmuted handling makes the same calls.
  A transcription that raises calls nothing.
\<close>

theorem muted_segment_handling:
  "muted tr \<Longrightarrow>
   handle_speech tr (Some (text_parts, lang)) inference_ms =
     (if strip (join_space text_parts) \<noteq> [] \<and>
         \<not> is_hallucination (strip (join_space text_parts)) \<and>
         is_interrupt (strip (join_space text_parts)) \<and> on_interrupt tr
      then [Interrupt_fired (strip (join_space text_parts))] else []) \<and>
   filter (\<lambda>e. \<not> is_transcription_event e)
       (handle_speech (tr\<lparr>muted := False\<rparr>) (Some (text_parts, lang)) inference_ms)
     = handle_speech tr (Some (text_parts, lang)) inference_ms \<and>
   handle_speech tr None inference_ms = []"
  by (simp add: handle_speech_def Let_def is_transcription_event_def)

theorem muted_segment_handling_witness:
  "handle_speech (mute (new_transcriber (1 / 2) True True :: int FastWhisperTranscriber))
     (Some ([''kira kira''], Some ''en'')) 120 = [Interrupt_fired ''kira kira''] \<and>
   handle_speech (mute (new_transcriber (1 / 2) True True :: int FastWhisperTranscriber))
     (Some ([''wait wait wait''], Some ''en'')) 120 = []"
proof -
  have m: "muted (mute (new_transcriber (1 / 2) True True :: int FastWhisperTranscriber))"
    by (simp add: mute_def new_transcriber_def)
  have i: "on_interrupt (mute (new_transcriber (1 / 2) True True :: int FastWhisperTranscriber))"
    by (simp add: mute_def new_transcriber_def)
  have k: "strip ''kira kira'' = ''kira kira''" by code_simp
  have k1: "\<not> is_hallucination ''kira kira''" by code_simp
  have k2: "is_interrupt ''kira kira''" by code_simp
  have w: "strip ''wait wait wait'' = ''wait wait wait''" by code_simp
  have w1: "is_hallucination ''wait wait wait''" by code_simp
  show ?thesis
    using muted_segment_handling[OF m, of "[''kira kira'']" "Some ''en''" 120]
      muted_segment_handling[OF m, of "[''wait wait wait'']" "Some ''en''" 120]
    by (simp add: i k k1 k2 w w1)
qed

section \<open>Frame differencing\<close>

lemma decide_eq:
  "decide cfg frames score regions =
     ((frames \<ge> min_frames_between_vlm cfg \<and> score > motion_threshold cfg) \<or>
      score > change_threshold cfg \<or>
      (regions \<ge> 3 \<and> score > motion_threshold cfg))"
  by (auto simp add: decide_def Let_def)

lemma should_run_vlm_later_frame:
  "last_frame s = Some lf \<Longrightarrow> last_vlm_frame s = Some lv \<Longrightarrow>
   \<exists>res s1. should_run_vlm cfg ops frame s =
     Inr (decide cfg (frames_since_vlm s + 1)
            (mean_abs_diff ops lv (downsample cfg ops frame))
            (active_cells ops (motion_threshold cfg) lv (downsample cfg ops frame)), res, s1)"
  by (simp add: should_run_vlm_def Let_def calculate_diff_def count_motion_regions_def)

lemma grid_score:
  "mean_abs_diff grid_ops (two_level_frame a b) (two_level_frame c d) =
     real_of_int (2 * \<bar>a - c\<bar> + 62 * \<bar>b - d\<bar>) / 64 / 255"
  by (simp add: grid_ops_def two_level_frame_def sum_list_replicate)

lemma grid_cells:
  "active_cells grid_ops thr (two_level_frame a b) (two_level_frame c d) =
     (if real_of_int \<bar>a - c\<bar> > thr * 255 then 2 else 0) +
     (if real_of_int \<bar>b - d\<bar> > thr * 255 then 62 else 0)"
  by (simp add: grid_ops_def two_level_frame_def)

text \<open>
  Claim C4, as stated, fails. The claim lets a frame inside the cooldown run only when
  the divergence exceeds \<open>motion_threshold\<close>. With the thresholds the constructor
  accepts in the other order (change 0.01, motion 0.02), the second frame, one frame
  after the analysis, runs with a divergence of 3/255, which is not above the motion
  threshold. And with the default thresholds the cooldown does not lower the bar but
  raises it: a frame that differs in two pixels only, with a divergence of 1/32 (above
  the motion threshold 0.02, below the change threshold 0.05, two active regions), does
  not run one frame after the analysis, and does run once five frames have passed.
\<close>

theorem cooldown_decision_counterexample:
  "should_run_vlm inverted_differ grid_ops (two_level_frame 3 3) after_first_frame =
     Inr (True, \<lparr>changed = True, diff_score = 3 / 255, motion_regions = 0\<rparr>,
          \<lparr>last_frame = Some (two_level_frame 3 3), last_vlm_frame = Some (two_level_frame 3 3),
           frames_since_vlm = 0\<rparr>) \<and>
   frames_since_vlm after_first_frame + 1 < min_frames_between_vlm inverted_differ \<and>
   \<not> (3 / 255 > motion_threshold inverted_differ) \<and>
   should_run_vlm plain_differ grid_ops (two_level_frame 255 0) after_first_frame =
     Inr (False, \<lparr>changed = False, diff_score = 1 / 32, motion_regions = 2\<rparr>,
          \<lparr>last_frame = Some (two_level_frame 255 0), last_vlm_frame = Some (two_level_frame 0 0),
           frames_since_vlm = 1\<rparr>) \<and>
   1 / 32 > motion_threshold plain_differ \<and>
   should_run_vlm plain_differ grid_ops (two_level_frame 255 0)
       (after_first_frame\<lparr>frames_since_vlm := 4\<rparr>) =
     Inr (True, \<lparr>changed = False, diff_score = 1 / 32, motion_regions = 2\<rparr>,
          \<lparr>last_frame = Some (two_level_frame 255 0), last_vlm_frame = Some (two_level_frame 255 0),
           frames_since_vlm = 0\<rparr>)"
  by (simp add: should_run_vlm_def Let_def calculate_diff_def count_motion_regions_def
        decide_def downsample_def inverted_differ_def plain_differ_def grid_score grid_cells
        after_first_frame_def)

text \<open>
  Claim C4, amended. For a frame after the first, with \<open>score\<close> the divergence from
  the last analysed frame and \<open>regions\<close> the number of active motion regions, the
  frame runs exactly when (a) at least \<open>min_frames_between_vlm\<close> frames have elapsed
  since the last analysis, this frame included, and \<open>score\<close> exceeds
  \<open>motion_threshold\<close>, or (b) \<open>score\<close> exceeds \<open>change_threshold\<close>, or (c) at least
  three regions are active and \<open>score\<close> exceeds \<open>motion_threshold\<close>. So inside the
  cooldown a frame runs only through (b) or (c); (b) and (c) cause a run whatever the
  cooldown; and when \<open>motion_threshold\<close> is not above \<open>change_threshold\<close>, a frame
  that runs has a score above \<open>motion_threshold\<close>.
\<close>

theorem should_run_vlm_decision:
  assumes "last_frame s = Some lf" and "last_vlm_frame s = Some lv"
    and "score = mean_abs_diff ops lv (downsample cfg ops frame)"
    and "regions = active_cells ops (motion_threshold cfg) lv (downsample cfg ops frame)"
  shows "\<exists>run res s1. should_run_vlm cfg ops frame s = Inr (run, res, s1) \<and>
     (run \<longleftrightarrow>
        (frames_since_vlm s + 1 \<ge> min_frames_between_vlm cfg \<and> score > motion_threshold cfg) \<or>
        score > change_threshold cfg \<or>
        (regions \<ge> 3 \<and> score > motion_threshold cfg)) \<and>
     (frames_since_vlm s + 1 < min_frames_between_vlm cfg \<longrightarrow>
        (run \<longleftrightarrow> score > change_threshold cfg \<or> (regions \<ge> 3 \<and> score > motion_threshold cfg))) \<and>
     (score > change_threshold cfg \<longrightarrow> run) \<and>
     (regions \<ge> 3 \<and> score > motion_threshold cfg \<longrightarrow> run) \<and>
     (motion_threshold cfg \<le> change_threshold cfg \<and> run \<longrightarrow> score > motion_threshold cfg)"
proof -
  from should_run_vlm_later_frame[OF assms(1,2), of cfg ops frame] obtain res s1 where
    eq: "should_run_vlm cfg ops frame s = Inr (decide cfg (frames_since_vlm s + 1) score regions, res, s1)"
    unfolding assms(3,4) by blast
  show ?thesis
    apply (rule exI[of _ "decide cfg (frames_since_vlm s + 1) score regions"])
    apply (rule exI[of _ res])
    apply (rule exI[of _ s1])
    apply (simp only: eq simp_thms)
    apply (auto simp add: decide_eq)
    done
qed

theorem should_run_vlm_decision_witness:
  "(\<exists>res s1. should_run_vlm plain_differ grid_ops (two_level_frame 255 0) after_first_frame
       = Inr (False, res, s1)) \<and>
   (\<exists>res s1. should_run_vlm plain_differ grid_ops (two_level_frame 20 20) after_first_frame
       = Inr (True, res, s1)) \<and>
   frames_since_vlm after_first_frame + 1 < min_frames_between_vlm plain_differ \<and>
   motion_threshold plain_differ \<le> change_threshold plain_differ"
proof -
  have a: "last_frame after_first_frame = Some (two_level_frame 0 0)"
    "last_vlm_frame after_first_frame = Some (two_level_frame 0 0)"
    by (simp_all add: after_first_frame_def)
  have s1: "1 / 32 = mean_abs_diff grid_ops (two_level_frame 0 0)
      (downsample plain_differ grid_ops (two_level_frame 255 0))"
    by (simp add: downsample_def plain_differ_def grid_score)
  have r1: "2 = active_cells grid_ops (motion_threshold plain_differ) (two_level_frame 0 0)
      (downsample plain_differ grid_ops (two_level_frame 255 0))"
    by (simp add: downsample_def plain_differ_def grid_cells)
  have s2: "20 / 255 = mean_abs_diff grid_ops (two_level_frame 0 0)
      (downsample plain_differ grid_ops (two_level_frame 20 20))"
    by (simp add: downsample_def plain_differ_def grid_score)
  have r2: "64 = active_cells grid_ops (motion_threshold plain_differ) (two_level_frame 0 0)
      (downsample plain_differ grid_ops (two_level_frame 20 20))"
    by (simp add: downsample_def plain_differ_def grid_cells)
  have c: "frames_since_vlm after_first_frame + 1 < min_frames_between_vlm plain_differ"
    "motion_threshold plain_differ \<le> change_threshold plain_differ"
    "\<not> 1 / 32 > change_threshold plain_differ" "20 / 255 > change_threshold plain_differ"
    "1 / 32 > motion_threshold plain_differ"
    by (simp_all add: after_first_frame_def plain_differ_def)
  show ?thesis
    using should_run_vlm_decision[OF a s1 r1] should_run_vlm_decision[OF a s2 r2] c
    by auto
qed

section \<open>Voice activity detection\<close>

subsection \<open>Counting samples\<close>

lemma total_samples_Nil [simp]: "total_samples [] = 0"
  by (simp add: total_samples_def)

lemma total_samples_Cons [simp]: "total_samples (x # xs) = int (length (snd x)) + total_samples xs"
  by (simp add: total_samples_def)

lemma total_samples_append [simp]: "total_samples (xs @ ys) = total_samples xs + total_samples ys"
  by (simp add: total_samples_def)

lemma total_samples_nonneg: "0 \<le> total_samples xs"
  by (induction xs) simp_all

lemma speech_total_Nil [simp]: "speech_total cfg model [] = 0"
  by (simp add: speech_total_def)

lemma speech_total_Cons [simp]:
  "speech_total cfg model (x # xs) =
     (if is_speech_chunk cfg model (snd x) then int (length (snd x)) else 0) + speech_total cfg model xs"
  by (simp add: speech_total_def)

lemma speech_total_append [simp]:
  "speech_total cfg model (xs @ ys) = speech_total cfg model xs + speech_total cfg model ys"
  by (simp add: speech_total_def)

lemma speech_total_nonneg: "0 \<le> speech_total cfg model xs"
  by (simp add: speech_total_def total_samples_nonneg)

lemma trailing_silence_Nil [simp]: "trailing_silence cfg model [] = 0"
  by (simp add: trailing_silence_def)

lemma trailing_silence_snoc [simp]:
  "trailing_silence cfg model (u @ [x]) =
     (if is_speech_chunk cfg model (snd x) then 0
      else int (length (snd x)) + trailing_silence cfg model u)"
  by (simp add: trailing_silence_def)

lemma trailing_silence_all_silent:
  "list_all (\<lambda>x. \<not> is_speech_chunk cfg model (snd x)) u \<Longrightarrow> trailing_silence cfg model u = total_samples u"
  by (induction u rule: rev_induct) simp_all

lemma trailing_silence_Cons:
  "trailing_silence cfg model (x # u) =
     (if list_all (\<lambda>x. \<not> is_speech_chunk cfg model (snd x)) u \<and> \<not> is_speech_chunk cfg model (snd x)
      then int (length (snd x)) + total_samples u
      else if list_all (\<lambda>x. \<not> is_speech_chunk cfg model (snd x)) u then total_samples u
      else trailing_silence cfg model u)"
proof (induction u rule: rev_induct)
  case Nil
  have "trailing_silence cfg model ([] @ [x]) =
      (if is_speech_chunk cfg model (snd x) then 0 else int (length (snd x)))"
    by (simp only: trailing_silence_snoc trailing_silence_Nil) simp
  then show ?case by simp
next
  case (snoc y u)
  have "trailing_silence cfg model ((x # u) @ [y]) =
      (if is_speech_chunk cfg model (snd y) then 0
       else int (length (snd y)) + trailing_silence cfg model (x # u))"
    by (rule trailing_silence_snoc)
  then show ?case using snoc by (auto simp add: trailing_silence_all_silent)
qed

lemma run_silence_Nil [simp]: "run_silence cfg model b [] = b"
  by (simp add: run_silence_def)

lemma run_silence_Cons [simp]:
  "run_silence cfg model b (x # u) =
     (if is_speech_chunk cfg model (snd x) then run_silence cfg model 0 u
      else run_silence cfg model (b + int (length (snd x))) u)"
  by (auto simp add: run_silence_def trailing_silence_Cons trailing_silence_all_silent)

lemma run_silence_zero: "run_silence cfg model 0 u = trailing_silence cfg model u"
  by (simp add: run_silence_def trailing_silence_all_silent)
subsection \<open>Sessions, chunk by chunk\<close>

lemma continues_Nil [simp]: "\<not> continues cfg model a b []"
  by (simp add: continues_def)

lemma continues_speech:
  assumes "is_speech_chunk cfg model (snd x)"
  shows "continues cfg model a b (x # w) = continues cfg model (a + int (length (snd x))) 0 w"
proof (cases "w = []")
  case True
  with assms show ?thesis by (simp add: continues_def)
next
  case False
  have pre: "(\<forall>u v. x # w = u @ v \<and> u \<noteq> [] \<and> v \<noteq> [] \<and> \<not> is_speech_chunk cfg model (snd (last u))
         \<longrightarrow> run_silence cfg model b u < min_silence_samples cfg) =
       (\<forall>u v. w = u @ v \<and> u \<noteq> [] \<and> v \<noteq> [] \<and> \<not> is_speech_chunk cfg model (snd (last u))
         \<longrightarrow> run_silence cfg model 0 u < min_silence_samples cfg)" (is "?L = ?R")
  proof
    assume L: ?L
    show ?R
    proof (intro allI impI)
      fix u v
      assume h: "w = u @ v \<and> u \<noteq> [] \<and> v \<noteq> [] \<and> \<not> is_speech_chunk cfg model (snd (last u))"
      then have "x # w = (x # u) @ v \<and> x # u \<noteq> [] \<and> v \<noteq> [] \<and>
          \<not> is_speech_chunk cfg model (snd (last (x # u)))" by simp
      with L have "run_silence cfg model b (x # u) < min_silence_samples cfg" by blast
      with assms show "run_silence cfg model 0 u < min_silence_samples cfg" by simp
    qed
  next
    assume R: ?R
    show ?L
    proof (intro allI impI)
      fix u v
      assume h: "x # w = u @ v \<and> u \<noteq> [] \<and> v \<noteq> [] \<and> \<not> is_speech_chunk cfg model (snd (last u))"
      then obtain u1 where u: "u = x # u1" "w = u1 @ v" by (cases u) auto
      with h assms have "u1 \<noteq> []" by auto
      with h u have "w = u1 @ v \<and> u1 \<noteq> [] \<and> v \<noteq> [] \<and> \<not> is_speech_chunk cfg model (snd (last u1))"
        by simp
      with R have "run_silence cfg model 0 u1 < min_silence_samples cfg" by blast
      with assms u show "run_silence cfg model b u < min_silence_samples cfg" by simp
    qed
  qed
  from False assms show ?thesis
    unfolding continues_def pre by (simp add: add.assoc)
qed

lemma continues_silence_more:
  assumes "\<not> is_speech_chunk cfg model (snd x)"
    and "b + int (length (snd x)) < min_silence_samples cfg"
  shows "continues cfg model a b (x # w) = continues cfg model a (b + int (length (snd x))) w"
proof (cases "w = []")
  case True
  with assms show ?thesis by (simp add: continues_def)
next
  case False
  have pre: "(\<forall>u v. x # w = u @ v \<and> u \<noteq> [] \<and> v \<noteq> [] \<and> \<not> is_speech_chunk cfg model (snd (last u))
         \<longrightarrow> run_silence cfg model b u < min_silence_samples cfg) =
       (\<forall>u v. w = u @ v \<and> u \<noteq> [] \<and> v \<noteq> [] \<and> \<not> is_speech_chunk cfg model (snd (last u))
         \<longrightarrow> run_silence cfg model (b + int (length (snd x))) u < min_silence_samples cfg)"
    (is "?L = ?R")
  proof
    assume L: ?L
    show ?R
    proof (intro allI impI)
      fix u v
      assume h: "w = u @ v \<and> u \<noteq> [] \<and> v \<noteq> [] \<and> \<not> is_speech_chunk cfg model (snd (last u))"
      then have "x # w = (x # u) @ v \<and> x # u \<noteq> [] \<and> v \<noteq> [] \<and>
          \<not> is_speech_chunk cfg model (snd (last (x # u)))" by simp
      with L have "run_silence cfg model b (x # u) < min_silence_samples cfg" by blast
      with assms show "run_silence cfg model (b + int (length (snd x))) u < min_silence_samples cfg"
        by simp
    qed
  next
    assume R: ?R
    show ?L
    proof (intro allI impI)
      fix u v
      assume h: "x # w = u @ v \<and> u \<noteq> [] \<and> v \<noteq> [] \<and> \<not> is_speech_chunk cfg model (snd (last u))"
      then obtain u1 where u: "u = x # u1" "w = u1 @ v" by (cases u) auto
      show "run_silence cfg model b u < min_silence_samples cfg"
      proof (cases "u1 = []")
        case True
        with u assms show ?thesis by simp
      next
        case False
        with h u have "w = u1 @ v \<and> u1 \<noteq> [] \<and> v \<noteq> [] \<and> \<not> is_speech_chunk cfg model (snd (last u1))"
          by simp
        with R have "run_silence cfg model (b + int (length (snd x))) u1 < min_silence_samples cfg"
          by blast
        with assms u show ?thesis by simp
      qed
    qed
  qed
  from False assms show ?thesis
    unfolding continues_def pre by simp
qed

lemma continues_silence_end:
  assumes "\<not> is_speech_chunk cfg model (snd x)"
    and "b + int (length (snd x)) \<ge> min_silence_samples cfg"
  shows "continues cfg model a b (x # w) = (w = [] \<and> a \<ge> min_speech_samples cfg)"
proof (cases "w = []")
  case True
  with assms show ?thesis by (auto simp add: continues_def Cons_eq_append_conv)
next
  case False
  have "\<not> continues cfg model a b (x # w)"
  proof
    assume c: "continues cfg model a b (x # w)"
    have "x # w = [x] @ w \<and> [x] \<noteq> [] \<and> w \<noteq> [] \<and> \<not> is_speech_chunk cfg model (snd (last [x]))"
      using False assms by simp
    with c have "run_silence cfg model b [x] < min_silence_samples cfg"
      unfolding continues_def by blast
    with assms show False by simp
  qed
  with False show ?thesis by simp
qed

lemma continues_mono:
  "continues cfg model a b w \<Longrightarrow> a \<le> a1 \<Longrightarrow> continues cfg model a1 b w"
  unfolding continues_def by auto

lemma front_Nil [simp]: "\<not> front cfg model a b []"
  by (simp add: front_def)

lemma front_Cons_iff:
  "front cfg model a b (x # xs) = (\<exists>w post. xs = w @ post \<and> continues cfg model a b (x # w))"
proof
  assume "front cfg model a b (x # xs)"
  then obtain w post where h: "x # xs = w @ post" "continues cfg model a b w"
    unfolding front_def by blast
  then have "w \<noteq> []" by auto
  with h obtain w1 where "w = x # w1" "xs = w1 @ post" by (cases w) auto
  with h show "\<exists>w post. xs = w @ post \<and> continues cfg model a b (x # w)" by blast
next
  assume "\<exists>w post. xs = w @ post \<and> continues cfg model a b (x # w)"
  then obtain w post where "xs = w @ post" "continues cfg model a b (x # w)" by blast
  then have "x # xs = (x # w) @ post \<and> continues cfg model a b (x # w)" by simp
  then show "front cfg model a b (x # xs)" unfolding front_def by blast
qed

lemma front_speech:
  assumes "is_speech_chunk cfg model (snd x)"
  shows "front cfg model a b (x # xs) = front cfg model (a + int (length (snd x))) 0 xs"
proof -
  have "front cfg model a b (x # xs) =
      (\<exists>w post. xs = w @ post \<and> continues cfg model (a + int (length (snd x))) 0 w)"
    using assms by (simp add: front_Cons_iff continues_speech)
  then show ?thesis by (simp add: front_def)
qed

lemma front_silence_more:
  assumes "\<not> is_speech_chunk cfg model (snd x)"
    and "b + int (length (snd x)) < min_silence_samples cfg"
  shows "front cfg model a b (x # xs) = front cfg model a (b + int (length (snd x))) xs"
proof -
  have "front cfg model a b (x # xs) =
      (\<exists>w post. xs = w @ post \<and> continues cfg model a (b + int (length (snd x))) w)"
    using assms by (simp add: front_Cons_iff continues_silence_more)
  then show ?thesis by (simp add: front_def)
qed

lemma front_silence_end:
  "\<not> is_speech_chunk cfg model (snd x) \<Longrightarrow> b + int (length (snd x)) \<ge> min_silence_samples cfg \<Longrightarrow>
   front cfg model a b (x # xs) = (a \<ge> min_speech_samples cfg)"
  by (simp add: front_Cons_iff continues_silence_end)

lemma front_mono: "front cfg model a b xs \<Longrightarrow> a \<le> a1 \<Longrightarrow> front cfg model a1 b xs"
  unfolding front_def using continues_mono by blast

lemma session_iff_continues:
  "session cfg model w =
     (w \<noteq> [] \<and> is_speech_chunk cfg model (snd (hd w)) \<and> continues cfg model 0 0 w)"
  unfolding session_def continues_def by (auto simp add: run_silence_zero)

lemma session_Cons:
  "session cfg model (x # w) =
     (is_speech_chunk cfg model (snd x) \<and> continues cfg model (int (length (snd x))) 0 w)"
  by (auto simp add: session_iff_continues continues_speech)

lemma has_session_Nil [simp]: "\<not> has_session cfg model []"
  by (simp add: has_session_def session_def)

lemma has_session_Cons:
  "has_session cfg model (x # xs) =
     (has_session cfg model xs \<or>
      (is_speech_chunk cfg model (snd x) \<and> front cfg model (int (length (snd x))) 0 xs))"
proof
  assume "has_session cfg model (x # xs)"
  then obtain pre w post where h: "x # xs = pre @ w @ post" "session cfg model w"
    unfolding has_session_def by blast
  show "has_session cfg model xs \<or>
      (is_speech_chunk cfg model (snd x) \<and> front cfg model (int (length (snd x))) 0 xs)"
  proof (cases pre)
    case Nil
    from h have "w \<noteq> []" by (auto simp add: session_def)
    with h Nil obtain w1 where w: "w = x # w1" "xs = w1 @ post" by (cases w) auto
    with h have "is_speech_chunk cfg model (snd x) \<and> continues cfg model (int (length (snd x))) 0 w1"
      by (simp add: session_Cons)
    with w show ?thesis unfolding front_def by blast
  next
    case (Cons p pre1)
    with h have "xs = pre1 @ w @ post" by simp
    with h show ?thesis unfolding has_session_def by blast
  qed
next
  assume "has_session cfg model xs \<or>
      (is_speech_chunk cfg model (snd x) \<and> front cfg model (int (length (snd x))) 0 xs)"
  then show "has_session cfg model (x # xs)"
  proof
    assume "has_session cfg model xs"
    then obtain pre w post where "xs = pre @ w @ post" "session cfg model w"
      unfolding has_session_def by blast
    then have "x # xs = (x # pre) @ w @ post \<and> session cfg model w" by simp
    then show ?thesis unfolding has_session_def by blast
  next
    assume a: "is_speech_chunk cfg model (snd x) \<and> front cfg model (int (length (snd x))) 0 xs"
    then obtain w post where "xs = w @ post" "continues cfg model (int (length (snd x))) 0 w"
      unfolding front_def by blast
    with a have "x # xs = [] @ (x # w) @ post \<and> session cfg model (x # w)"
      by (simp add: session_Cons)
    then show ?thesis unfolding has_session_def by blast
  qed
qed
subsection \<open>One chunk\<close>

lemma pc_speech:
  assumes "CHUNK_SAMPLES \<le> length c" and "is_speech_chunk cfg model c"
  shows "\<exists>s2 p. process_chunk cfg model t c s = (s2, p, []) \<and> in_speech s2 \<and>
     speech_samples s2 = (if in_speech s then speech_samples s else 0) + int (length c) \<and>
     silence_samples s2 = 0 \<and> speech_buffer s2 = speech_buffer s @ [c]"
  using assms by (simp add: process_chunk_def is_speech_chunk_def Let_def)

lemma pc_idle:
  assumes "CHUNK_SAMPLES \<le> length c" and "\<not> is_speech_chunk cfg model c" and "\<not> in_speech s"
  shows "\<exists>p. process_chunk cfg model t c s = (s, p, [])"
  using assms by (simp add: process_chunk_def is_speech_chunk_def Let_def)

lemma pc_more:
  assumes "CHUNK_SAMPLES \<le> length c" and "\<not> is_speech_chunk cfg model c" and "in_speech s"
    and "silence_samples s + int (length c) < min_silence_samples cfg"
  shows "\<exists>s2 p. process_chunk cfg model t c s = (s2, p, []) \<and> in_speech s2 \<and>
     speech_samples s2 = speech_samples s \<and>
     silence_samples s2 = silence_samples s + int (length c) \<and>
     speech_buffer s2 = speech_buffer s @ [c]"
  using assms by (simp add: process_chunk_def is_speech_chunk_def Let_def)

lemma pc_end:
  assumes "CHUNK_SAMPLES \<le> length c" and "\<not> is_speech_chunk cfg model c" and "in_speech s"
    and "silence_samples s + int (length c) \<ge> min_silence_samples cfg"
  shows "\<exists>p out. process_chunk cfg model t c s = (vad_init, p, out) \<and>
     (out \<noteq> [] \<longleftrightarrow> speech_samples s \<ge> min_speech_samples cfg \<and> on_speech_segment cfg) \<and>
     (\<forall>seg \<in> set out. out = [seg] \<and> audio seg = concat (speech_buffer s @ [c]) \<and>
        duration_ms seg = segment_duration_ms (length (concat (speech_buffer s @ [c]))) \<and>
        end_time seg = t)"
  using assms
  by (simp add: process_chunk_def is_speech_chunk_def Let_def emit_segment_def reset_def vad_init_def)

lemma process_chunks_append:
  "process_chunks cfg model (xs @ ys) s =
     (case process_chunks cfg model xs s of
        (s1, o1) \<Rightarrow> (case process_chunks cfg model ys s1 of (s2, o2) \<Rightarrow> (s2, o1 @ o2)))"
  by (induction xs arbitrary: s) (auto split: prod.splits)

lemma steady_init [simp]: "steady vad_init"
  by (simp add: steady_def vad_init_def)

subsection \<open>When a sequence makes the segmenter emit\<close>

lemma emits_iff:
  assumes "on_speech_segment cfg"
  shows "steady s \<Longrightarrow> \<forall>x \<in> set xs. CHUNK_SAMPLES \<le> length (snd x) \<Longrightarrow>
     (snd (process_chunks cfg model xs s) \<noteq> []) =
       (has_session cfg model xs \<or>
        (in_speech s \<and> front cfg model (speech_samples s) (silence_samples s) xs))"
proof (induction xs arbitrary: s)
  case Nil
  show ?case by simp
next
  case (Cons x xs)
  obtain t c where x: "x = (t, c)" by (cases x)
  from Cons.prems x have ok: "CHUNK_SAMPLES \<le> length c"
    and oks: "\<forall>x \<in> set xs. CHUNK_SAMPLES \<le> length (snd x)" by simp_all
  obtain s1 p out where pc: "process_chunk cfg model t c s = (s1, p, out)"
    by (cases "process_chunk cfg model t c s")
  have emits: "(snd (process_chunks cfg model (x # xs) s) \<noteq> []) =
      (out \<noteq> [] \<or> snd (process_chunks cfg model xs s1) \<noteq> [])"
    using pc x by (simp split: prod.splits)
  consider (speech) "is_speech_chunk cfg model c"
    | (idle) "\<not> is_speech_chunk cfg model c" "\<not> in_speech s"
    | (more) "\<not> is_speech_chunk cfg model c" "in_speech s"
        "silence_samples s + int (length c) < min_silence_samples cfg"
    | (fin) "\<not> is_speech_chunk cfg model c" "in_speech s"
        "silence_samples s + int (length c) \<ge> min_silence_samples cfg"
    by fastforce
  then show ?case
  proof cases
    case speech
    from pc_speech[OF ok speech, of t s] pc have s1: "out = []" "in_speech s1"
      "speech_samples s1 = (if in_speech s then speech_samples s else 0) + int (length c)"
      "silence_samples s1 = 0" "speech_buffer s1 = speech_buffer s @ [c]" by auto
    from s1 Cons.prems(1) have st: "steady s1" by (auto simp add: steady_def)
    have ih: "(snd (process_chunks cfg model xs s1) \<noteq> []) =
        (has_session cfg model xs \<or> front cfg model (speech_samples s1) 0 xs)"
      using Cons.IH[OF st oks] s1 by simp
    have hs: "has_session cfg model (x # xs) =
        (has_session cfg model xs \<or> front cfg model (int (length c)) 0 xs)"
      using speech x by (simp add: has_session_Cons)
    show ?thesis
    proof (cases "in_speech s")
      case True
      with Cons.prems(1) have nn: "0 \<le> speech_samples s" by (simp add: steady_def)
      have fr: "front cfg model (speech_samples s) (silence_samples s) (x # xs) =
          front cfg model (speech_samples s + int (length c)) 0 xs"
        using speech x by (simp add: front_speech)
      have mono: "front cfg model (int (length c)) 0 xs \<Longrightarrow>
          front cfg model (speech_samples s + int (length c)) 0 xs"
        using nn by (rule_tac front_mono) auto
      show ?thesis
        unfolding emits ih hs fr using s1 True mono by auto
    next
      case False
      show ?thesis
        unfolding emits ih hs using s1 False by auto
    qed
  next
    case idle
    from pc_idle[OF ok idle, of t] pc have s1: "out = []" "s1 = s" by auto
    have hs: "has_session cfg model (x # xs) = has_session cfg model xs"
      using idle x by (simp add: has_session_Cons)
    show ?thesis
      unfolding emits hs using s1 idle Cons.IH[OF Cons.prems(1) oks] by simp
  next
    case more
    from pc_more[OF ok more, of t] pc have s1: "out = []" "in_speech s1"
      "speech_samples s1 = speech_samples s"
      "silence_samples s1 = silence_samples s + int (length c)"
      "speech_buffer s1 = speech_buffer s @ [c]" by auto
    from s1 Cons.prems(1) more have st: "steady s1" by (auto simp add: steady_def)
    have hs: "has_session cfg model (x # xs) = has_session cfg model xs"
      using more x by (simp add: has_session_Cons)
    have fr: "front cfg model (speech_samples s) (silence_samples s) (x # xs) =
        front cfg model (speech_samples s) (silence_samples s + int (length c)) xs"
      using more x by (simp add: front_silence_more)
    show ?thesis
      unfolding emits hs fr using s1 more Cons.IH[OF st oks] by simp
  next
    case fin
    from Cons.prems(1) fin have "speech_buffer s \<noteq> []" by (simp add: steady_def)
    from pc_end[OF ok fin, of t] pc have s1: "s1 = vad_init"
      "out \<noteq> [] \<longleftrightarrow> speech_samples s \<ge> min_speech_samples cfg"
      using assms by auto
    have hs: "has_session cfg model (x # xs) = has_session cfg model xs"
      using fin x by (simp add: has_session_Cons)
    have fr: "front cfg model (speech_samples s) (silence_samples s) (x # xs) =
        (speech_samples s \<ge> min_speech_samples cfg)"
      using fin x by (simp add: front_silence_end)
    have ih: "(snd (process_chunks cfg model xs vad_init) \<noteq> []) = has_session cfg model xs"
      using Cons.IH[OF steady_init oks] by (simp add: vad_init_def)
    show ?thesis
      unfolding emits hs fr using s1 fin ih by auto
  qed
qed

subsection \<open>Every emitted segment is a session\<close>

lemma snoc_eq_append:
  "hist @ [x] = u @ v \<Longrightarrow> (v = [] \<and> u = hist @ [x]) \<or> (\<exists>v1. v = v1 @ [x] \<and> hist = u @ v1)"
  by (cases v rule: rev_cases) auto

lemma trailing_silence_single [simp]:
  "trailing_silence cfg model [x] =
     (if is_speech_chunk cfg model (snd x) then 0 else int (length (snd x)))"
  by (simp add: trailing_silence_def)

lemma tracks_init [simp]: "tracks cfg model vad_init []"
  by (simp add: tracks_def vad_init_def)

lemma tracks_idle: "tracks cfg model s hist \<Longrightarrow> \<not> in_speech s \<Longrightarrow> hist = [] \<and> speech_buffer s = []"
  by (simp add: tracks_def)

lemma tracks_speech:
  assumes tr: "tracks cfg model s hist" and sp: "is_speech_chunk cfg model c"
    and s1: "in_speech s1"
      "speech_samples s1 = (if in_speech s then speech_samples s else 0) + int (length c)"
      "silence_samples s1 = 0" "speech_buffer s1 = speech_buffer s @ [c]"
  shows "tracks cfg model s1 (hist @ [(t, c)])"
proof (cases "in_speech s")
  case False
  with tr have "hist = []" "speech_buffer s = []" by (simp_all add: tracks_def)
  with s1 sp False show ?thesis
    by (auto simp add: tracks_def Cons_eq_append_conv)
next
  case True
  with tr have h: "hist \<noteq> []" "is_speech_chunk cfg model (snd (hd hist))"
    "speech_buffer s = map snd hist" "speech_samples s = speech_total cfg model hist"
    and pre: "\<And>u v. hist = u @ v \<Longrightarrow> u \<noteq> [] \<Longrightarrow> \<not> is_speech_chunk cfg model (snd (last u))
       \<Longrightarrow> trailing_silence cfg model u < min_silence_samples cfg"
    by (simp_all add: tracks_def)
  have "\<And>u v. hist @ [(t, c)] = u @ v \<Longrightarrow> u \<noteq> [] \<Longrightarrow>
      \<not> is_speech_chunk cfg model (snd (last u)) \<Longrightarrow>
      trailing_silence cfg model u < min_silence_samples cfg"
  proof -
    fix u v
    assume e: "hist @ [(t, c)] = u @ v" and n: "u \<noteq> []"
      and l: "\<not> is_speech_chunk cfg model (snd (last u))"
    from snoc_eq_append[OF e] show "trailing_silence cfg model u < min_silence_samples cfg"
    proof
      assume "v = [] \<and> u = hist @ [(t, c)]"
      with l sp show ?thesis by simp
    next
      assume "\<exists>v1. v = v1 @ [(t, c)] \<and> hist = u @ v1"
      then obtain v1 where "hist = u @ v1" by blast
      from pre[OF this n l] show ?thesis .
    qed
  qed
  with h s1 sp True show ?thesis
    by (simp add: tracks_def)
qed

lemma tracks_more:
  assumes tr: "tracks cfg model s hist" and sp: "\<not> is_speech_chunk cfg model c"
    and ins: "in_speech s"
    and lt: "silence_samples s + int (length c) < min_silence_samples cfg"
    and s1: "in_speech s1" "speech_samples s1 = speech_samples s"
      "silence_samples s1 = silence_samples s + int (length c)"
      "speech_buffer s1 = speech_buffer s @ [c]"
  shows "tracks cfg model s1 (hist @ [(t, c)])"
proof -
  from tr ins have h: "hist \<noteq> []" "is_speech_chunk cfg model (snd (hd hist))"
    "speech_buffer s = map snd hist" "speech_samples s = speech_total cfg model hist"
    "silence_samples s = trailing_silence cfg model hist"
    and pre: "\<And>u v. hist = u @ v \<Longrightarrow> u \<noteq> [] \<Longrightarrow> \<not> is_speech_chunk cfg model (snd (last u))
       \<Longrightarrow> trailing_silence cfg model u < min_silence_samples cfg"
    by (simp_all add: tracks_def)
  have "\<And>u v. hist @ [(t, c)] = u @ v \<Longrightarrow> u \<noteq> [] \<Longrightarrow>
      \<not> is_speech_chunk cfg model (snd (last u)) \<Longrightarrow>
      trailing_silence cfg model u < min_silence_samples cfg"
  proof -
    fix u v
    assume e: "hist @ [(t, c)] = u @ v" and n: "u \<noteq> []"
      and l: "\<not> is_speech_chunk cfg model (snd (last u))"
    from snoc_eq_append[OF e] show "trailing_silence cfg model u < min_silence_samples cfg"
    proof
      assume "v = [] \<and> u = hist @ [(t, c)]"
      with sp lt h show ?thesis by simp
    next
      assume "\<exists>v1. v = v1 @ [(t, c)] \<and> hist = u @ v1"
      then obtain v1 where "hist = u @ v1" by blast
      from pre[OF this n l] show ?thesis .
    qed
  qed
  with h s1 sp show ?thesis
    by (simp add: tracks_def)
qed

lemma tracks_end_session:
  assumes tr: "tracks cfg model s hist" and sp: "\<not> is_speech_chunk cfg model c"
    and ins: "in_speech s"
    and ge: "silence_samples s + int (length c) \<ge> min_silence_samples cfg"
    and en: "speech_samples s \<ge> min_speech_samples cfg"
  shows "session cfg model (hist @ [(t, c)]) \<and>
     concat (speech_buffer s @ [c]) = concat (map snd (hist @ [(t, c)]))"
proof -
  from tr ins have h: "hist \<noteq> []" "is_speech_chunk cfg model (snd (hd hist))"
    "speech_buffer s = map snd hist" "speech_samples s = speech_total cfg model hist"
    "silence_samples s = trailing_silence cfg model hist"
    and pre: "\<And>u v. hist = u @ v \<Longrightarrow> u \<noteq> [] \<Longrightarrow> \<not> is_speech_chunk cfg model (snd (last u))
       \<Longrightarrow> trailing_silence cfg model u < min_silence_samples cfg"
    by (simp_all add: tracks_def)
  have "\<And>u v. hist @ [(t, c)] = u @ v \<Longrightarrow> u \<noteq> [] \<Longrightarrow> v \<noteq> [] \<Longrightarrow>
      \<not> is_speech_chunk cfg model (snd (last u)) \<Longrightarrow>
      trailing_silence cfg model u < min_silence_samples cfg"
  proof -
    fix u v
    assume e: "hist @ [(t, c)] = u @ v" and n: "u \<noteq> []" and nv: "v \<noteq> []"
      and l: "\<not> is_speech_chunk cfg model (snd (last u))"
    from snoc_eq_append[OF e] nv obtain v1 where "hist = u @ v1" by blast
    from pre[OF this n l] show "trailing_silence cfg model u < min_silence_samples cfg" .
  qed
  with h sp ge en show ?thesis
    by (simp add: session_def)
qed

lemma segments_are_sessions:
  "tracks cfg model s hist \<Longrightarrow> \<forall>x \<in> set xs. CHUNK_SAMPLES \<le> length (snd x) \<Longrightarrow>
   \<forall>seg \<in> set (snd (process_chunks cfg model xs s)).
     \<exists>pre w post. hist @ xs = pre @ w @ post \<and> session cfg model w \<and>
       audio seg = concat (map snd w) \<and>
       duration_ms seg = segment_duration_ms (length (audio seg))"
proof (induction xs arbitrary: s hist)
  case Nil
  show ?case by simp
next
  case (Cons x xs)
  obtain t c where x: "x = (t, c)" by (cases x)
  from Cons.prems x have ok: "CHUNK_SAMPLES \<le> length c"
    and oks: "\<forall>x \<in> set xs. CHUNK_SAMPLES \<le> length (snd x)" by simp_all
  obtain s1 p out where pc: "process_chunk cfg model t c s = (s1, p, out)"
    by (cases "process_chunk cfg model t c s")
  have outs: "snd (process_chunks cfg model (x # xs) s) = out @ snd (process_chunks cfg model xs s1)"
    using pc x by (simp split: prod.splits)
  consider (speech) "is_speech_chunk cfg model c"
    | (idle) "\<not> is_speech_chunk cfg model c" "\<not> in_speech s"
    | (more) "\<not> is_speech_chunk cfg model c" "in_speech s"
        "silence_samples s + int (length c) < min_silence_samples cfg"
    | (fin) "\<not> is_speech_chunk cfg model c" "in_speech s"
        "silence_samples s + int (length c) \<ge> min_silence_samples cfg"
    by fastforce
  then show ?case
  proof cases
    case speech
    from pc_speech[OF ok speech, of t s] pc have s1: "out = []" "in_speech s1"
      "speech_samples s1 = (if in_speech s then speech_samples s else 0) + int (length c)"
      "silence_samples s1 = 0" "speech_buffer s1 = speech_buffer s @ [c]" by auto
    have "tracks cfg model s1 (hist @ [(t, c)])"
      by (rule tracks_speech[OF Cons.prems(1) speech s1(2-5)])
    from Cons.IH[OF this oks] show ?thesis
      unfolding outs using s1(1) x by simp
  next
    case idle
    from pc_idle[OF ok idle, of t] pc have s1: "out = []" "s1 = s" by auto
    from tracks_idle[OF Cons.prems(1) idle(2)] have hist: "hist = []" by simp
    show ?thesis unfolding outs
    proof
      fix seg
      assume "seg \<in> set (out @ snd (process_chunks cfg model xs s1))"
      with s1 have "seg \<in> set (snd (process_chunks cfg model xs s))" by simp
      with Cons.IH[OF Cons.prems(1) oks] hist obtain pre w post where
        w: "xs = pre @ w @ post" "session cfg model w" "audio seg = concat (map snd w)"
          "duration_ms seg = segment_duration_ms (length (audio seg))" by auto
      then have "hist @ x # xs = (x # pre) @ w @ post" using hist by simp
      with w show "\<exists>pre w post. hist @ x # xs = pre @ w @ post \<and> session cfg model w \<and>
          audio seg = concat (map snd w) \<and>
          duration_ms seg = segment_duration_ms (length (audio seg))" by blast
    qed
  next
    case more
    from pc_more[OF ok more, of t] pc have s1: "out = []" "in_speech s1"
      "speech_samples s1 = speech_samples s"
      "silence_samples s1 = silence_samples s + int (length c)"
      "speech_buffer s1 = speech_buffer s @ [c]" by auto
    have "tracks cfg model s1 (hist @ [(t, c)])"
      by (rule tracks_more[OF Cons.prems(1) more s1(2-5)])
    from Cons.IH[OF this oks] show ?thesis
      unfolding outs using s1(1) x by simp
  next
    case fin
    from pc_end[OF ok fin, of t] pc have s1: "s1 = vad_init"
      and o1: "out \<noteq> [] \<Longrightarrow> speech_samples s \<ge> min_speech_samples cfg"
      and o2: "\<And>seg. seg \<in> set out \<Longrightarrow> audio seg = concat (speech_buffer s @ [c]) \<and>
          duration_ms seg = segment_duration_ms (length (concat (speech_buffer s @ [c])))"
      by auto
    show ?thesis unfolding outs
    proof
      fix seg
      assume "seg \<in> set (out @ snd (process_chunks cfg model xs s1))"
      then consider (now) "seg \<in> set out"
        | (later) "seg \<in> set (snd (process_chunks cfg model xs vad_init))"
        using s1 by auto
      then show "\<exists>pre w post. hist @ x # xs = pre @ w @ post \<and> session cfg model w \<and>
          audio seg = concat (map snd w) \<and>
          duration_ms seg = segment_duration_ms (length (audio seg))"
      proof cases
        case now
        then have "out \<noteq> []" by auto
        from tracks_end_session[OF Cons.prems(1) fin o1[OF this], of t]
        have ses: "session cfg model (hist @ [(t, c)])"
          and au: "concat (speech_buffer s @ [c]) = concat (map snd (hist @ [(t, c)]))"
          by simp_all
        have "hist @ x # xs = [] @ (hist @ [(t, c)]) @ xs" using x by simp
        with ses au o2[OF now] show ?thesis by metis
      next
        case later
        with Cons.IH[OF tracks_init oks] obtain pre w post where
          w: "xs = pre @ w @ post" "session cfg model w" "audio seg = concat (map snd w)"
            "duration_ms seg = segment_duration_ms (length (audio seg))" by auto
        then have "hist @ x # xs = (hist @ x # pre) @ w @ post" by simp
        with w show ?thesis by blast
      qed
    qed
  qed
qed

subsection \<open>A contiguous run is a session\<close>

lemma front_speech_run:
  "list_all (\<lambda>x. is_speech_chunk cfg model (snd x)) run \<Longrightarrow>
   front cfg model a 0 (run @ rest) = front cfg model (a + total_samples run) 0 rest"
  by (induction run arbitrary: a) (simp_all add: front_speech add.assoc)

lemma front_silence_run:
  "list_all (\<lambda>x. \<not> is_speech_chunk cfg model (snd x)) sil \<Longrightarrow> sil \<noteq> [] \<Longrightarrow>
   b + total_samples sil \<ge> min_silence_samples cfg \<Longrightarrow> a \<ge> min_speech_samples cfg \<Longrightarrow>
   front cfg model a b (sil @ post)"
proof (induction sil arbitrary: b)
  case Nil
  then show ?case by simp
next
  case (Cons x sil)
  show ?case
  proof (cases "b + int (length (snd x)) \<ge> min_silence_samples cfg")
    case True
    with Cons.prems show ?thesis by (simp add: front_silence_end)
  next
    case False
    with Cons.prems have "sil \<noteq> []" by auto
    with Cons.IH[of "b + int (length (snd x))"] Cons.prems False show ?thesis
      by (simp add: front_silence_more add.assoc)
  qed
qed

lemma has_session_prepend: "has_session cfg model ys \<Longrightarrow> has_session cfg model (pre @ ys)"
proof -
  assume "has_session cfg model ys"
  then obtain p w post where "ys = p @ w @ post" "session cfg model w"
    unfolding has_session_def by blast
  then have "pre @ ys = (pre @ p) @ w @ post \<and> session cfg model w" by simp
  then show ?thesis unfolding has_session_def by blast
qed

lemma run_then_silence_is_session:
  assumes "list_all (\<lambda>x. is_speech_chunk cfg model (snd x)) run" and "run \<noteq> []"
    and "list_all (\<lambda>x. \<not> is_speech_chunk cfg model (snd x)) sil" and "sil \<noteq> []"
    and "total_samples run \<ge> min_speech_samples cfg"
    and "total_samples sil \<ge> min_silence_samples cfg"
  shows "has_session cfg model (pre @ run @ sil @ post)"
proof -
  from assms(2) obtain x run1 where r: "run = x # run1" by (cases run) auto
  with assms(1) have sx: "is_speech_chunk cfg model (snd x)"
    and r1: "list_all (\<lambda>x. is_speech_chunk cfg model (snd x)) run1" by simp_all
  have "front cfg model (int (length (snd x)) + total_samples run1) 0 (sil @ post)"
    using front_silence_run[OF assms(3,4), of 0 "int (length (snd x)) + total_samples run1" post]
      assms(5,6) r by simp
  then have "front cfg model (int (length (snd x))) 0 (run1 @ sil @ post)"
    by (simp add: front_speech_run[OF r1])
  with sx have "has_session cfg model (x # run1 @ sil @ post)"
    by (simp add: has_session_Cons)
  then show ?thesis using r has_session_prepend[of cfg model "run @ sil @ post" pre] by simp
qed

lemma drop_slice: "i \<le> j \<Longrightarrow> drop i xs = slice i j xs @ drop j xs"
proof -
  assume "i \<le> j"
  then have "drop (j - i) (drop i xs) = drop j xs" by simp
  then show ?thesis
    unfolding slice_def using append_take_drop_id[of "j - i" "drop i xs"] by simp
qed

lemma contiguous_run_is_session:
  assumes "has_contiguous_run cfg model xs"
  shows "has_session cfg model xs"
proof -
  from assms obtain i j k where ij: "i < j" "j \<le> length xs" and jk: "j < k" "k \<le> length xs"
    and sp: "list_all (\<lambda>x. is_speech_chunk cfg model (snd x)) (slice i j xs)"
    and si: "list_all (\<lambda>x. \<not> is_speech_chunk cfg model (snd x)) (slice j k xs)"
    and t1: "total_samples (slice i j xs) \<ge> min_speech_samples cfg"
    and t2: "total_samples (slice j k xs) \<ge> min_silence_samples cfg"
    unfolding has_contiguous_run_def by auto
  have n1: "slice i j xs \<noteq> []" using ij by (auto simp add: slice_def)
  have n2: "slice j k xs \<noteq> []" using jk by (auto simp add: slice_def)
  have "xs = take i xs @ drop i xs" by simp
  also have "drop i xs = slice i j xs @ drop j xs"
    by (rule drop_slice) (simp add: less_imp_le ij)
  also have "drop j xs = slice j k xs @ drop k xs"
    by (rule drop_slice) (simp add: less_imp_le jk)
  finally have "xs = take i xs @ slice i j xs @ slice j k xs @ drop k xs" .
  with run_then_silence_is_session[OF sp n1 si n2 t1 t2, of "take i xs" "drop k xs"]
  show ?thesis by simp
qed

subsection \<open>The example chunks\<close>

lemma CHUNK_SAMPLES_eq: "CHUNK_SAMPLES = 512"
  by (simp add: CHUNK_SAMPLES_def SAMPLE_RATE_def CHUNK_MS_def)

lemma length_const_chunk [simp]: "length (const_chunk v) = 512"
  by (simp add: const_chunk_def CHUNK_SAMPLES_eq)

lemma first_sample_model_const [simp]:
  "first_sample_model (const_chunk v) = (if v > 0 then 1 else 0)"
proof -
  have e: "CHUNK_SAMPLES = Suc 511" by (simp add: CHUNK_SAMPLES_eq)
  have "const_chunk v = v # replicate 511 v"
    by (simp only: const_chunk_def e replicate.simps)
  then show ?thesis by (simp add: first_sample_model_def)
qed

lemma take_const_chunk [simp]: "take CHUNK_SAMPLES (const_chunk v) = const_chunk v"
  by (simp add: CHUNK_SAMPLES_eq)

lemma is_speech_const [simp]:
  "is_speech_chunk cfg first_sample_model (const_chunk v) = (threshold cfg \<le> (if v > 0 then 1 else 0))"
  by (simp add: is_speech_chunk_def)

lemma short_pause_cfg_simps [simp]:
  "threshold short_pause_cfg = 1 / 2" "min_speech_samples short_pause_cfg = 800"
  "min_silence_samples short_pause_cfg = 800" "on_speech_segment short_pause_cfg"
  by (simp_all add: short_pause_cfg_def SileroVAD_def ms_to_samples_def SAMPLE_RATE_def)

lemma process_chunk_const:
  "process_chunk cfg first_sample_model now (const_chunk v) s =
     (if threshold cfg \<le> (if v > 0 then 1 else 0) then
        ((if \<not> in_speech s
          then s\<lparr>in_speech := True, speech_start_time := Some now,
                 speech_samples := 0, silence_samples := 0\<rparr>
          else s)\<lparr>speech_buffer := speech_buffer s @ [const_chunk v],
                  speech_samples := (if in_speech s then speech_samples s else 0) + 512,
                  silence_samples := 0\<rparr>, Some (if v > 0 then 1 else 0), [])
      else if in_speech s then
        (if silence_samples s + 512 \<ge> min_silence_samples cfg
         then (case emit_segment cfg now
                 (s\<lparr>speech_buffer := speech_buffer s @ [const_chunk v],
                    silence_samples := silence_samples s + 512\<rparr>) of
                 (s2, out) \<Rightarrow> (s2, Some (if v > 0 then 1 else 0), out))
         else (s\<lparr>speech_buffer := speech_buffer s @ [const_chunk v],
                 silence_samples := silence_samples s + 512\<rparr>, Some (if v > 0 then 1 else 0), []))
      else (s, Some (if v > 0 then 1 else 0), []))"
  by (simp add: process_chunk_def Let_def CHUNK_SAMPLES_eq)

lemma bounded_ex_as_list:
  "(\<exists>i \<in> {a..<b}. P i) = list_ex P [a..<b]"
  "(\<exists>i \<in> {a<..b}. P i) = list_ex P [Suc a..<Suc b]"
  by (simp_all only: greaterThanAtMost_upt atLeastLessThan_upt list_ex_iff)

subsection \<open>Claim C1\<close>

text \<open>
  Claim C1, as stated, fails: the claim requires the qualifying speech run to be
  contiguous, the code does not. With both thresholds at 800 samples, the chunks
  speech, silence, speech, silence, silence (512 samples each) make the segmenter emit
  one segment of all five chunks, although no contiguous run of speech chunks reaches
  800 samples: the silence chunk between the two speech chunks stays below the silence
  threshold and does not reset the speech counter.
\<close>

theorem contiguous_speech_counterexample:
  "list_all (\<lambda>x. CHUNK_SAMPLES \<le> length (snd x)) pause_example \<and>
   map (\<lambda>seg. length (audio seg))
     (snd (process_chunks short_pause_cfg first_sample_model pause_example vad_init)) = [2560] \<and>
   \<not> has_contiguous_run short_pause_cfg first_sample_model pause_example"
proof (intro conjI)
  show "list_all (\<lambda>x. CHUNK_SAMPLES \<le> length (snd x)) pause_example"
    by (simp add: pause_example_def CHUNK_SAMPLES_eq)
  show "map (\<lambda>seg. length (audio seg))
     (snd (process_chunks short_pause_cfg first_sample_model pause_example vad_init)) = [2560]"
    by (simp add: pause_example_def process_chunk_const vad_init_def emit_segment_def Let_def
          reset_def)
  have len: "length pause_example = 5" by (simp add: pause_example_def)
  show "\<not> has_contiguous_run short_pause_cfg first_sample_model pause_example"
    unfolding has_contiguous_run_def len bounded_ex_as_list
    by (simp add: upt_rec[of _ "numeral k" for k] upt_rec[of _ "Suc k" for k] slice_def
          pause_example_def)
qed

text \<open>
  Claim C1, amended. For every sequence of chunks of at least the chunk size fed to a
  fresh segmenter with a callback, a segment is emitted if and only if the sequence
  contains a session: consecutive chunks that start with a speech chunk and end with a
  silence chunk, whose speech chunks together (contiguous or separated by pauses
  shorter than \<open>min_silence_samples\<close>) reach \<open>min_speech_samples\<close>, and whose closing
  silence run is the first to reach \<open>min_silence_samples\<close>. Every emitted segment is
  the audio of such a session, so none holds fewer than \<open>min_speech_samples\<close> speech
  samples. A contiguous speech run of at least \<open>min_speech_samples\<close> directly followed
  by a silence run of at least \<open>min_silence_samples\<close> is enough for a segment.
\<close>

theorem vad_emits_iff_session:
  assumes "on_speech_segment cfg" and "\<forall>x \<in> set xs. CHUNK_SAMPLES \<le> length (snd x)"
  shows "((snd (process_chunks cfg model xs vad_init) \<noteq> []) \<longleftrightarrow> has_session cfg model xs) \<and>
    (\<forall>seg \<in> set (snd (process_chunks cfg model xs vad_init)).
       \<exists>pre w post. xs = pre @ w @ post \<and> session cfg model w \<and>
         audio seg = concat (map snd w) \<and>
         speech_total cfg model w \<ge> min_speech_samples cfg) \<and>
    (has_contiguous_run cfg model xs \<longrightarrow> snd (process_chunks cfg model xs vad_init) \<noteq> [])"
proof -
  have iff: "(snd (process_chunks cfg model xs vad_init) \<noteq> []) = has_session cfg model xs"
    using emits_iff[OF assms(1) steady_init assms(2), of model] by (simp add: vad_init_def)
  have segs: "\<forall>seg \<in> set (snd (process_chunks cfg model xs vad_init)).
       \<exists>pre w post. xs = pre @ w @ post \<and> session cfg model w \<and>
         audio seg = concat (map snd w) \<and>
         speech_total cfg model w \<ge> min_speech_samples cfg"
  proof
    fix seg
    assume "seg \<in> set (snd (process_chunks cfg model xs vad_init))"
    with segments_are_sessions[OF tracks_init assms(2), of cfg model] obtain pre w post where
      w: "xs = pre @ w @ post" "session cfg model w" "audio seg = concat (map snd w)" by auto
    from w(2) have "speech_total cfg model w \<ge> min_speech_samples cfg"
      by (simp add: session_def)
    with w show "\<exists>pre w post. xs = pre @ w @ post \<and> session cfg model w \<and>
         audio seg = concat (map snd w) \<and>
         speech_total cfg model w \<ge> min_speech_samples cfg" by blast
  qed
  from iff segs contiguous_run_is_session[of cfg model xs] show ?thesis by blast
qed

theorem vad_emits_iff_session_witness:
  "has_session short_pause_cfg first_sample_model pause_example \<and>
   snd (process_chunks short_pause_cfg first_sample_model pause_example vad_init) \<noteq> [] \<and>
   has_contiguous_run short_pause_cfg first_sample_model run_example \<and>
   snd (process_chunks short_pause_cfg first_sample_model run_example vad_init) \<noteq> []"
proof -
  have ok1: "\<forall>x \<in> set pause_example. CHUNK_SAMPLES \<le> length (snd x)"
    by (simp add: pause_example_def CHUNK_SAMPLES_eq)
  have ok2: "\<forall>x \<in> set run_example. CHUNK_SAMPLES \<le> length (snd x)"
    by (simp add: run_example_def CHUNK_SAMPLES_eq)
  have cb: "on_speech_segment short_pause_cfg" by simp
  have e1: "snd (process_chunks short_pause_cfg first_sample_model pause_example vad_init) \<noteq> []"
    by (simp add: pause_example_def process_chunk_const vad_init_def emit_segment_def Let_def
          reset_def)
  have len: "length run_example = 4" by (simp add: run_example_def)
  have r2: "has_contiguous_run short_pause_cfg first_sample_model run_example"
    unfolding has_contiguous_run_def len bounded_ex_as_list
    by (simp add: upt_rec[of _ "numeral k" for k] upt_rec[of _ "Suc k" for k] slice_def
          run_example_def)
  show ?thesis
    using vad_emits_iff_session[OF cb ok1, of first_sample_model]
      vad_emits_iff_session[OF cb ok2, of first_sample_model] e1 r2
    by blast
qed

subsection \<open>Runs of speech and of silence\<close>

lemma speech_run:
  "\<forall>x \<in> set xs. CHUNK_SAMPLES \<le> length (snd x) \<and> is_speech_chunk cfg model (snd x) \<Longrightarrow>
   \<exists>s1. process_chunks cfg model xs s = (s1, []) \<and>
     in_speech s1 = (in_speech s \<or> xs \<noteq> []) \<and>
     speech_samples s1 = (if in_speech s \<or> xs = [] then speech_samples s else 0) + total_samples xs \<and>
     silence_samples s1 = (if xs = [] then silence_samples s else 0) \<and>
     speech_buffer s1 = speech_buffer s @ map snd xs"
proof (induction xs arbitrary: s)
  case Nil
  show ?case by simp
next
  case (Cons x xs)
  obtain t c where x: "x = (t, c)" by (cases x)
  from Cons.prems x have ok: "CHUNK_SAMPLES \<le> length c" and sp: "is_speech_chunk cfg model c"
    and rest: "\<forall>x \<in> set xs. CHUNK_SAMPLES \<le> length (snd x) \<and> is_speech_chunk cfg model (snd x)"
    by simp_all
  from pc_speech[OF ok sp, of t s] obtain s2 p where
    s2: "process_chunk cfg model t c s = (s2, p, [])" "in_speech s2"
      "speech_samples s2 = (if in_speech s then speech_samples s else 0) + int (length c)"
      "silence_samples s2 = 0" "speech_buffer s2 = speech_buffer s @ [c]" by blast
  from Cons.IH[OF rest, of s2] obtain s1 where
    s1: "process_chunks cfg model xs s2 = (s1, [])"
      "in_speech s1 = (in_speech s2 \<or> xs \<noteq> [])"
      "speech_samples s1 = (if in_speech s2 \<or> xs = [] then speech_samples s2 else 0) + total_samples xs"
      "silence_samples s1 = (if xs = [] then silence_samples s2 else 0)"
      "speech_buffer s1 = speech_buffer s2 @ map snd xs" by blast
  show ?case
    by (rule exI[of _ s1]) (simp add: x s2 s1)
qed

lemma silence_run_below:
  "in_speech s \<Longrightarrow>
   \<forall>x \<in> set xs. CHUNK_SAMPLES \<le> length (snd x) \<and> \<not> is_speech_chunk cfg model (snd x) \<Longrightarrow>
   silence_samples s + total_samples xs < min_silence_samples cfg \<Longrightarrow>
   \<exists>s1. process_chunks cfg model xs s = (s1, []) \<and> in_speech s1 \<and>
     speech_samples s1 = speech_samples s \<and>
     silence_samples s1 = silence_samples s + total_samples xs \<and>
     speech_buffer s1 = speech_buffer s @ map snd xs"
proof (induction xs arbitrary: s)
  case Nil
  then show ?case by simp
next
  case (Cons x xs)
  obtain t c where x: "x = (t, c)" by (cases x)
  from Cons.prems x have ok: "CHUNK_SAMPLES \<le> length c" and sp: "\<not> is_speech_chunk cfg model c"
    and rest: "\<forall>x \<in> set xs. CHUNK_SAMPLES \<le> length (snd x) \<and> \<not> is_speech_chunk cfg model (snd x)"
    by simp_all
  from Cons.prems(3) x total_samples_nonneg[of xs]
  have lt: "silence_samples s + int (length c) < min_silence_samples cfg" by simp
  from pc_more[OF ok sp Cons.prems(1) lt, of t] obtain s2 p where
    s2: "process_chunk cfg model t c s = (s2, p, [])" "in_speech s2"
      "speech_samples s2 = speech_samples s"
      "silence_samples s2 = silence_samples s + int (length c)"
      "speech_buffer s2 = speech_buffer s @ [c]" by blast
  from Cons.prems(3) x s2 have lt2: "silence_samples s2 + total_samples xs < min_silence_samples cfg"
    by simp
  from Cons.IH[OF s2(2) rest lt2] obtain s1 where
    s1: "process_chunks cfg model xs s2 = (s1, [])" "in_speech s1"
      "speech_samples s1 = speech_samples s2"
      "silence_samples s1 = silence_samples s2 + total_samples xs"
      "speech_buffer s1 = speech_buffer s2 @ map snd xs" by blast
  show ?case
    by (rule exI[of _ s1]) (simp add: x s2 s1)
qed

lemma silence_when_idle:
  "\<not> in_speech s \<Longrightarrow>
   \<forall>x \<in> set xs. CHUNK_SAMPLES \<le> length (snd x) \<and> \<not> is_speech_chunk cfg model (snd x) \<Longrightarrow>
   process_chunks cfg model xs s = (s, [])"
proof (induction xs)
  case Nil
  show ?case by simp
next
  case (Cons x xs)
  obtain t c where x: "x = (t, c)" by (cases x)
  from Cons.prems x have ok: "CHUNK_SAMPLES \<le> length c" and sp: "\<not> is_speech_chunk cfg model c"
    by simp_all
  from pc_idle[OF ok sp Cons.prems(1), of t] obtain p where
    "process_chunk cfg model t c s = (s, p, [])" by blast
  with Cons x show ?case by simp
qed

lemma total_samples_uniform:
  "\<forall>x \<in> set xs. length (snd x) = n \<Longrightarrow> total_samples xs = int n * int (length xs)"
  by (induction xs) (simp_all add: algebra_simps)

lemma length_concat_chunks: "int (length (concat (map snd xs))) = total_samples xs"
  by (induction xs) simp_all

subsection \<open>Claim C7\<close>

text \<open>
  Claim C7. The segmenter is configured with \<open>min_speech_ms = 250\<close> and
  \<open>min_silence_ms = 700\<close>, and fed chunks of exactly 32 ms (512 samples): ten chunks
  classified as speech, which is what covers 300 ms, and then chunks classified as
  silence, 24 of them to cover 750 ms (any number from 22 on gives the same). Exactly
  one segment is emitted; it holds the ten speech chunks and the first 22 silence
  chunks, its \<open>duration_ms\<close> is 1024, and that is within one chunk duration (32 ms) of
  1050.
\<close>

theorem vad_end_to_end_scenario:
  assumes "length sp = 10" and "22 \<le> length si"
    and "\<forall>x \<in> set (sp @ si). length (snd x) = CHUNK_SAMPLES"
    and "\<forall>x \<in> set sp. is_speech_chunk cfg model (snd x)"
    and "\<forall>x \<in> set si. \<not> is_speech_chunk cfg model (snd x)"
    and "cfg = SileroVAD thr 250 700 pad True"
  shows "\<exists>seg. snd (process_chunks cfg model (sp @ si) vad_init) = [seg] \<and>
     audio seg = concat (map snd (sp @ take 22 si)) \<and>
     duration_ms seg = 1024 \<and> \<bar>duration_ms seg - 1050\<bar> \<le> CHUNK_MS"
proof -
  have cfg: "min_speech_samples cfg = 4000" "min_silence_samples cfg = 11200" "on_speech_segment cfg"
    by (simp_all add: assms(6) SileroVAD_def ms_to_samples_def SAMPLE_RATE_def)
  define si1 where "si1 = take 21 si"
  define x where "x = si ! 21"
  define si2 where "si2 = drop 22 si"
  have si: "si = si1 @ [x] @ si2"
    unfolding si1_def x_def si2_def using assms(2) id_take_nth_drop[of 21 si] by simp
  have l1: "length si1 = 21" unfolding si1_def using assms(2) by simp
  have t22: "take 22 si = si1 @ [x]"
    using si l1 by simp
  obtain t c where x: "x = (t, c)" by (cases x)
  have spk: "\<forall>x \<in> set sp. CHUNK_SAMPLES \<le> length (snd x) \<and> is_speech_chunk cfg model (snd x)"
    using assms(3,4) by simp
  have sil1: "\<forall>x \<in> set si1. CHUNK_SAMPLES \<le> length (snd x) \<and> \<not> is_speech_chunk cfg model (snd x)"
    using assms(3,5) si by simp
  have sil2: "\<forall>x \<in> set si2. CHUNK_SAMPLES \<le> length (snd x) \<and> \<not> is_speech_chunk cfg model (snd x)"
    using assms(3,5) si by simp
  have xc: "CHUNK_SAMPLES \<le> length c" "\<not> is_speech_chunk cfg model c" "length c = 512"
    using assms(3,5) si x by (simp_all add: CHUNK_SAMPLES_eq)
  have tsp: "total_samples sp = 5120"
    using total_samples_uniform[of sp 512] assms(1,3) by (simp add: CHUNK_SAMPLES_eq)
  have tsi1: "total_samples si1 = 10752"
    using total_samples_uniform[of si1 512] assms(3) si l1 by (simp add: CHUNK_SAMPLES_eq)
  from speech_run[OF spk, of vad_init] obtain s1 where
    s1: "process_chunks cfg model sp vad_init = (s1, [])" "in_speech s1"
      "speech_samples s1 = 5120" "silence_samples s1 = 0" "speech_buffer s1 = map snd sp"
    using assms(1) tsp by (auto simp add: vad_init_def)
  have "silence_samples s1 + total_samples si1 < min_silence_samples cfg"
    using s1 tsi1 cfg by simp
  from silence_run_below[OF s1(2) sil1 this] obtain s2 where
    s2: "process_chunks cfg model si1 s1 = (s2, [])" "in_speech s2"
      "speech_samples s2 = 5120" "silence_samples s2 = 10752"
      "speech_buffer s2 = map snd sp @ map snd si1"
    using s1 tsi1 by auto
  have "silence_samples s2 + int (length c) \<ge> min_silence_samples cfg"
    using s2 xc cfg by simp
  from pc_end[OF xc(1,2) s2(2) this, of t] obtain p out where
    pe: "process_chunk cfg model t c s2 = (vad_init, p, out)" "out \<noteq> []"
      "\<forall>seg \<in> set out. out = [seg] \<and> audio seg = concat (speech_buffer s2 @ [c]) \<and>
         duration_ms seg = segment_duration_ms (length (concat (speech_buffer s2 @ [c]))) \<and>
         end_time seg = t"
    using s2 cfg by auto
  from pe(2) obtain seg where "seg \<in> set out" by (cases out) auto
  with pe(3) have seg: "out = [seg]" "audio seg = concat (speech_buffer s2 @ [c])"
    "duration_ms seg = segment_duration_ms (length (audio seg))" by auto
  have au: "audio seg = concat (map snd (sp @ take 22 si))"
    using seg(2) s2(5) t22 x by simp
  have "int (length (audio seg)) = total_samples (sp @ si1 @ [x])"
    unfolding au t22 by (simp only: length_concat_chunks append_assoc)
  then have "int (length (audio seg)) = 16384"
    using tsp tsi1 x xc by simp
  then have dur: "duration_ms seg = 1024"
    using seg(3) by (simp add: segment_duration_ms_def SAMPLE_RATE_def)
  have idle: "process_chunks cfg model si2 vad_init = (vad_init, [])"
    by (rule silence_when_idle[OF _ sil2]) (simp add: vad_init_def)
  have "snd (process_chunks cfg model (sp @ si) vad_init) = [seg]"
    unfolding si
    by (simp add: process_chunks_append s1 s2 x pe(1) seg(1) idle)
  with au dur show ?thesis
    by (intro exI[of _ seg]) (simp add: CHUNK_MS_def)
qed

lemma length_feed [simp]: "length (feed n t v) = n"
  by (induction n arbitrary: t) simp_all

lemma snd_feed: "x \<in> set (feed n t v) \<Longrightarrow> snd x = const_chunk v"
  by (induction n arbitrary: t) auto

theorem vad_end_to_end_scenario_witness:
  "map duration_ms
     (snd (process_chunks (SileroVAD (1 / 2) 250 700 100 True) first_sample_model
        (feed 10 0 1 @ feed 24 10 0) vad_init)) = [1024] \<and>
   length (feed 10 0 1) = 10 \<and> length (feed 24 10 0) = 24 \<and>
   list_all (\<lambda>x. length (snd x) = CHUNK_SAMPLES \<and>
       is_speech_chunk (SileroVAD (1 / 2) 250 700 100 True) first_sample_model (snd x))
     (feed 10 0 1) \<and>
   list_all (\<lambda>x. length (snd x) = CHUNK_SAMPLES \<and>
       \<not> is_speech_chunk (SileroVAD (1 / 2) 250 700 100 True) first_sample_model (snd x))
     (feed 24 10 0)"
proof -
  have a1: "length (feed 10 0 1) = 10" and a2: "22 \<le> length (feed 24 10 0)" by simp_all
  have a3: "\<forall>x \<in> set (feed 10 0 1 @ feed 24 10 0). length (snd x) = CHUNK_SAMPLES"
  proof
    fix x :: "real \<times> int list"
    assume "x \<in> set (feed 10 0 1 @ feed 24 10 0)"
    then have "snd x = const_chunk 1 \<or> snd x = const_chunk 0"
      by (auto dest: snd_feed)
    then show "length (snd x) = CHUNK_SAMPLES" by (auto simp add: CHUNK_SAMPLES_eq)
  qed
  have a4: "\<forall>x \<in> set (feed 10 0 1).
      is_speech_chunk (SileroVAD (1 / 2) 250 700 100 True) first_sample_model (snd x)"
  proof
    fix x :: "real \<times> int list"
    assume "x \<in> set (feed 10 0 1)"
    then have "snd x = const_chunk 1" by (rule snd_feed)
    then show "is_speech_chunk (SileroVAD (1 / 2) 250 700 100 True) first_sample_model (snd x)"
      by (simp add: SileroVAD_def)
  qed
  have a5: "\<forall>x \<in> set (feed 24 10 0).
      \<not> is_speech_chunk (SileroVAD (1 / 2) 250 700 100 True) first_sample_model (snd x)"
  proof
    fix x :: "real \<times> int list"
    assume "x \<in> set (feed 24 10 0)"
    then have "snd x = const_chunk 0" by (rule snd_feed)
    then show "\<not> is_speech_chunk (SileroVAD (1 / 2) 250 700 100 True) first_sample_model (snd x)"
      by (simp add: SileroVAD_def)
  qed
  from vad_end_to_end_scenario[OF a1 a2 a3 a4 a5 refl] a3 a4 a5
  show ?thesis by (auto simp add: list_all_iff)
qed

section \<open>Interruptible playback\<close>

text \<open>
  Claim C6. The claim is that after \<open>interrupt()\<close> returns nothing of the interrupted
  \<open>speak()\<close> plays and \<open>is_speaking()\<close> is false. The flag is tested at the top of
  \<open>_play_audio\<close>, but the process is started later, under a lock taken after the
  test. In the schedule below the playback thread has passed both tests when
  \<open>interrupt()\<close> runs: \<open>interrupt()\<close> finds no process and an empty queue and
  returns, and the playback thread then starts the process: the audio starts playing
  after \<open>interrupt()\<close> has returned, and \<open>is_speaking()\<close> is true. (When the thread
  has not yet passed the tests, the same calls play nothing.)
\<close>

theorem interrupt_race_starts_playback:
  "events (run_schedule [Speak ''a.wav'', Thread_step, Thread_step, Thread_step, Interrupt, Thread_step]
         new_tts) = [Interrupt_returned, Started ''a.wav''] \<and>
   is_speaking (run_schedule
       [Speak ''a.wav'', Thread_step, Thread_step, Thread_step, Interrupt, Thread_step] new_tts) \<and>
   \<not> is_speaking (run_schedule
       [Speak ''a.wav'', Thread_step, Thread_step, Thread_step, Interrupt] new_tts) \<and>
   events (run_schedule [Speak ''a.wav'', Thread_step, Thread_step, Interrupt, Thread_step, Thread_step,
         Thread_step] new_tts) = [Interrupt_returned] \<and>
   \<not> is_speaking (run_schedule [Speak ''a.wav'', Thread_step, Thread_step, Interrupt, Thread_step,
         Thread_step, Thread_step] new_tts)"
  by (simp add: run_schedule_def new_tts_def speak_nonblocking_def thread_step_def interrupt_def
        is_speaking_def)

end
